theory Spec2Isabelle
  imports Main "HOL-Library.Word" "HOL-Library.Finite_Map"
begin

section \<open>Strings and numbers of the host language\<close>

text \<open>
  The codec of \<^verbatim>\<open>src/bencode.ts\<close> works on strings of the host language, which are
  sequences of 16-bit code units: \<^verbatim>\<open>str.length\<close> counts code units and
  \<^verbatim>\<open>str.charCodeAt(i)\<close> returns the code unit at index \<open>i\<close>, a number below 65536.
  A character outside the Basic Multilingual Plane is two code units (a surrogate pair).
\<close>

type_synonym jsstring = "16 word list"

definition js :: "string \<Rightarrow> jsstring" where
  "js s = map of_char s"

text \<open>
  Numbers. The codec only produces and consumes integral numbers and the value NaN
  (the result of \<^verbatim>\<open>parseInt\<close> on a text without digits). They are modelled as
  mathematical integers plus NaN. The numbers of the host are doubles: every integer of
  magnitude up to \<open>2^53\<close> is one of them and the model is exact there. Outside the
  model are the rounding of larger magnitudes to a nearby double, the infinite values,
  the negative zero, and the shortest digits and exponent notation that the conversion
  of such large numbers to text uses; statements about the value of a number are made
  for magnitudes up to \<open>2^53\<close> (see \<open>exactly_parsed\<close>).
\<close>

datatype jsnum = NaN | Num int

definition digit_char :: "nat \<Rightarrow> 16 word" where
  "digit_char k = of_nat (48 + k)"

text \<open>Decimal digits of a natural number, most significant first.\<close>

fun digits10 :: "nat \<Rightarrow> jsstring" where
  "digits10 n = (if n < 10 then [digit_char n] else digits10 (n div 10) @ [digit_char (n mod 10)])"

declare digits10.simps [simp del]

text \<open>
  The template conversion \<^verbatim>\<open>`${value}`\<close> of a number: the decimal digits of an
  integer, which are the digits the host prints for every integer of magnitude up to
  \<open>2^53\<close>.
\<close>

definition number_to_string :: "jsnum \<Rightarrow> jsstring" where
  "number_to_string x =
     (case x of
        NaN \<Rightarrow> js ''NaN''
      | Num n \<Rightarrow> (if n < 0 then of_char CHR ''-'' # digits10 (nat (- n)) else digits10 (nat n)))"

definition is_digit :: "16 word \<Rightarrow> bool" where
  "is_digit c = (of_char CHR ''0'' \<le> c \<and> c \<le> of_char CHR ''9'')"

text \<open>
  White space that \<^verbatim>\<open>parseInt\<close> skips in front of the number: the white-space and
  line-terminator code units of the language definition.
\<close>

definition is_white :: "16 word \<Rightarrow> bool" where
  "is_white c =
     (c \<in> {0x09, 0x0A, 0x0B, 0x0C, 0x0D, 0x20, 0xA0, 0x1680, 0x2028, 0x2029, 0x202F, 0x205F,
            0x3000, 0xFEFF}
      \<or> (0x2000 \<le> c \<and> c \<le> 0x200A))"

definition digits_value :: "jsstring \<Rightarrow> nat" where
  "digits_value ds = foldl (\<lambda>acc c. 10 * acc + (unat c - 48)) 0 ds"

text \<open>
  \<^verbatim>\<open>parseInt(s, 10)\<close>: skip leading white space, read an optional sign, then the longest
  run of decimal digits; NaN when that run is empty. Whatever follows the digits is ignored.
  The result here is the integer that the digits denote. It is the host's result when
  that integer is at most \<open>2^53\<close> and is not a zero after a minus sign; for a longer
  digit run the host returns a double near that integer, and for \<^verbatim>\<open>-0\<close> its negative
  zero.
\<close>

definition parseInt :: "jsstring \<Rightarrow> jsnum" where
  "parseInt s =
     (let s1 = dropWhile is_white s;
          neg = (s1 \<noteq> [] \<and> hd s1 = of_char CHR ''-'');
          s2 = (if s1 \<noteq> [] \<and> (hd s1 = of_char CHR ''-'' \<or> hd s1 = of_char CHR ''+'')
                then tl s1 else s1);
          ds = takeWhile is_digit s2
      in if ds = [] then NaN
         else Num (if neg then - int (digits_value ds) else int (digits_value ds)))"

text \<open>\<^verbatim>\<open>data[pos]\<close>: the code unit at an index, \<^verbatim>\<open>undefined\<close> (here \<open>None\<close>) out of range.\<close>

definition charAt :: "jsstring \<Rightarrow> nat \<Rightarrow> 16 word option" where
  "charAt d pos = (if pos < length d then Some (d ! pos) else None)"

text \<open>\<^verbatim>\<open>data.slice(a, b)\<close> for \<open>0 \<le> a\<close>; the host clamps both ends to the length.\<close>

definition slice_js :: "jsstring \<Rightarrow> nat \<Rightarrow> nat \<Rightarrow> jsstring" where
  "slice_js d a b = take (b - a) (drop a d)"

text \<open>\<^verbatim>\<open>data.indexOf(c, pos)\<close>: the first index at or after \<open>pos\<close> holding \<open>c\<close>; \<open>None\<close> is -1.\<close>

fun index_from :: "16 word \<Rightarrow> jsstring \<Rightarrow> nat \<Rightarrow> nat option" where
  "index_from c [] i = None"
| "index_from c (x # xs) i = (if x = c then Some i else index_from c xs (Suc i))"

definition indexOf :: "16 word \<Rightarrow> jsstring \<Rightarrow> nat \<Rightarrow> nat option" where
  "indexOf c d pos = index_from c (drop pos d) pos"

text \<open>\<^verbatim>\<open>xs.join(sep)\<close> on a list of strings.\<close>

fun join :: "jsstring \<Rightarrow> jsstring list \<Rightarrow> jsstring" where
  "join sep [] = []"
| "join sep [x] = x"
| "join sep (x # y # ys) = x @ sep @ join sep (y # ys)"

section \<open>The codec: values\<close>

text \<open>
  \<^verbatim>\<open>BencodeValue\<close>: a string, a number, an array of values, or an object used as a
  dictionary from strings to values. An object is modelled by the list of its own
  entries in the order in which \<^verbatim>\<open>Object.entries\<close> lists them (insertion order, for
  keys that are not array indices); the keys of an object are pairwise distinct (see
  \<open>wf_value\<close>).
\<close>

datatype bvalue =
    BString jsstring
  | BNumber jsnum
  | BList "bvalue list"
  | BDict "(jsstring \<times> bvalue) list"

section \<open>The codec: encoding\<close>

text \<open>
  \<^verbatim>\<open>getUTF8ByteLength\<close>: the loop adds, for each code unit, 1, 2, 3 or 4 according to
  the thresholds 128, 2048 and 65536 on \<^verbatim>\<open>charCodeAt(i)\<close>.
\<close>

definition unit_bytes :: "16 word \<Rightarrow> nat" where
  "unit_bytes c =
     (let charCode = unat c
      in if charCode < 128 then 1
         else if charCode < 2048 then 2
         else if charCode < 65536 then 3
         else 4)"

fun getUTF8ByteLength :: "jsstring \<Rightarrow> nat" where
  "getUTF8ByteLength [] = 0"
| "getUTF8ByteLength (c # cs) = unit_bytes c + getUTF8ByteLength cs"

text \<open>
  \<^verbatim>\<open>Object.entries(value).sort(([a], [b]) => a.localeCompare(b))\<close>. The comparison
  \<^verbatim>\<open>localeCompare\<close> belongs to the host platform and is a parameter \<open>lc\<close> of the
  model (negative: first argument sorts before the second). The host's sort is stable; it
  is modelled by a stable insertion sort: an entry is placed in front of the first
  entry that does not sort before it, so entries whose keys compare as equal keep their
  insertion order. Both sorts give the same list whenever the comparison is total and
  transitive, whether or not it reports different keys as equal.
\<close>

fun insert_entry ::
  "(jsstring \<Rightarrow> jsstring \<Rightarrow> int) \<Rightarrow> jsstring \<times> 'v \<Rightarrow> (jsstring \<times> 'v) list \<Rightarrow> (jsstring \<times> 'v) list"
where
  "insert_entry lc e [] = [e]"
| "insert_entry lc e (x # xs) =
     (if lc (fst e) (fst x) \<le> 0 then e # x # xs else x # insert_entry lc e xs)"

definition sort_entries ::
  "(jsstring \<Rightarrow> jsstring \<Rightarrow> int) \<Rightarrow> (jsstring \<times> 'v) list \<Rightarrow> (jsstring \<times> 'v) list"
where
  "sort_entries lc es = foldr (insert_entry lc) es []"

text \<open>
  \<^verbatim>\<open>BencodeEncoder.encode\<close>. The final \<^verbatim>\<open>throw\<close> of the source is unreachable for a
  value of type \<^verbatim>\<open>BencodeValue\<close>, so the model returns the text directly.
\<close>

function encode :: "(jsstring \<Rightarrow> jsstring \<Rightarrow> int) \<Rightarrow> bvalue \<Rightarrow> jsstring" where
  "encode lc (BString s) =
     number_to_string (Num (int (getUTF8ByteLength s))) @ of_char CHR '':'' # s"
| "encode lc (BNumber n) = of_char CHR ''i'' # number_to_string n @ [of_char CHR ''e'']"
| "encode lc (BList xs) = of_char CHR ''l'' # concat (map (encode lc) xs) @ [of_char CHR ''e'']"
| "encode lc (BDict es) =
     of_char CHR ''d''
       # concat (map (\<lambda>(k, v). encode lc (BString k) @ encode lc v) (sort_entries lc es))
       @ [of_char CHR ''e'']"
  by pat_completeness auto
termination
proof (relation "measure (\<lambda>(lc, v). size v)")
  have ins: "set (insert_entry lc e xs) = insert e (set xs)"
    for lc and e :: "jsstring \<times> bvalue" and xs
    by (induction xs) auto
  have srt: "set (sort_entries lc es) = set es"
    for lc and es :: "(jsstring \<times> bvalue) list"
    by (induction es) (simp_all add: sort_entries_def ins)
  have sz: "size v < Suc (size_list (size_prod (\<lambda>_. 0) size) es)"
    if "(k, v) \<in> set es" for k v and es :: "(jsstring \<times> bvalue) list"
    using that by (induction es) auto
  show "wf (measure (\<lambda>(lc, v). size v))" by simp
  show "\<And>lc xs x. x \<in> set xs \<Longrightarrow> ((lc, x), lc, BList xs) \<in> measure (\<lambda>(lc, v). size v)"
    by (simp add: less_Suc_eq_le size_list_estimation')
  show "\<And>lc es x xa y. x \<in> set (sort_entries lc es) \<Longrightarrow> (xa, y) = x \<Longrightarrow>
          ((lc, BString xa), lc, BDict es) \<in> measure (\<lambda>(lc, v). size v)"
    by simp
  show "\<And>lc es x xa y. x \<in> set (sort_entries lc es) \<Longrightarrow> (xa, y) = x \<Longrightarrow>
          ((lc, y), lc, BDict es) \<in> measure (\<lambda>(lc, v). size v)"
    using sz by (simp add: srt) blast
qed

section \<open>The codec: decoding\<close>

text \<open>
  The errors the decoder throws, named after the messages of the source:
  \<^verbatim>\<open>Invalid bencode data at position n\<close>, \<^verbatim>\<open>Unterminated integer\<close>,
  \<^verbatim>\<open>Invalid string format\<close>, \<^verbatim>\<open>String length exceeds data\<close>,
  \<^verbatim>\<open>Unterminated list\<close>, \<^verbatim>\<open>Unterminated dictionary\<close> and
  \<^verbatim>\<open>Dictionary key must be a string\<close>.
\<close>

datatype decode_error =
    InvalidData nat
  | UnterminatedInteger
  | InvalidStringFormat
  | StringLengthExceedsData
  | UnterminatedList
  | UnterminatedDictionary
  | KeyMustBeString

text \<open>
  The loop of \<^verbatim>\<open>decodeInteger\<close>: advance \<open>pos\<close> until \<^verbatim>\<open>data[pos] === 'e'\<close>,
  throwing once \<open>pos\<close> has reached the end of the data.
\<close>

function scan_integer :: "jsstring \<Rightarrow> nat \<Rightarrow> decode_error + nat" where
  "scan_integer d pos =
     (if charAt d pos \<noteq> Some (of_char CHR ''e'')
      then (if pos \<ge> length d then Inl UnterminatedInteger else scan_integer d (pos + 1))
      else Inr pos)"
  by pat_completeness auto
termination
  by (relation "measure (\<lambda>(d, pos). length d - pos)") auto

declare scan_integer.simps [simp del]

definition decodeInteger :: "jsstring \<Rightarrow> nat \<Rightarrow> decode_error + bvalue \<times> nat" where
  "decodeInteger d pos =
     (let start = pos + 1
      in case scan_integer d start of
           Inl err \<Rightarrow> Inl err
         | Inr pos' \<Rightarrow> Inr (BNumber (parseInt (slice_js d start pos')), pos' + 1))"

text \<open>
  The comparison \<^verbatim>\<open>currentBytes < byteLength\<close> of \<^verbatim>\<open>decodeString\<close>; a comparison
  with NaN is false.
\<close>

definition less_num :: "nat \<Rightarrow> jsnum \<Rightarrow> bool" where
  "less_num c x = (case x of NaN \<Rightarrow> False | Num n \<Rightarrow> int c < n)"

text \<open>
  The loop of \<^verbatim>\<open>decodeString\<close>: take one code unit at a time, adding its byte length,
  while the declared length is not reached and the data is not exhausted.
\<close>

function string_end :: "jsstring \<Rightarrow> jsnum \<Rightarrow> nat \<Rightarrow> nat \<Rightarrow> nat" where
  "string_end d byteLength end currentBytes =
     (if less_num currentBytes byteLength \<and> end < length d
      then string_end d byteLength (end + 1) (currentBytes + getUTF8ByteLength [d ! end])
      else end)"
  by pat_completeness auto
termination
  by (relation "measure (\<lambda>(d, b, e, c). length d - e)") auto

declare string_end.simps [simp del]

definition decodeString :: "jsstring \<Rightarrow> nat \<Rightarrow> decode_error + bvalue \<times> nat" where
  "decodeString d pos =
     (case indexOf (of_char CHR '':'') d pos of
        None \<Rightarrow> Inl InvalidStringFormat
      | Some colonPos \<Rightarrow>
          (let byteLength = parseInt (slice_js d pos colonPos);
               start = colonPos + 1;
               end = string_end d byteLength start 0
           in if end > length d then Inl StringLengthExceedsData
              else Inr (BString (slice_js d start end), end)))"

text \<open>
  \<^verbatim>\<open>result[key] = value\<close> on the entries of an object created by \<^verbatim>\<open>{}\<close>. Such an
  object inherits the accessor property \<^verbatim>\<open>__proto__\<close>: an assignment to that key
  runs the inherited setter, which at most changes the prototype of the object and
  never gives it an entry of its own. Any other key is defined, or overwritten in
  place. The list keeps the entries in the order of their definition; the host lists
  keys that are array indices in front of the others, which no statement below depends
  on (decoded objects are compared with \<open>deep_equal\<close>).
\<close>

fun obj_put :: "(jsstring \<times> 'v) list \<Rightarrow> jsstring \<Rightarrow> 'v \<Rightarrow> (jsstring \<times> 'v) list" where
  "obj_put [] k v = [(k, v)]"
| "obj_put ((k', v') # es) k v = (if k' = k then (k, v) # es else (k', v') # obj_put es k v)"

definition obj_set :: "(jsstring \<times> 'v) list \<Rightarrow> jsstring \<Rightarrow> 'v \<Rightarrow> (jsstring \<times> 'v) list" where
  "obj_set es k v = (if k = js ''__proto__'' then es else obj_put es k v)"

text \<open>
  \<^verbatim>\<open>decode\<close>, \<^verbatim>\<open>decodeList\<close> and \<^verbatim>\<open>decodeDictionary\<close> call each other, and the two
  loops continue from the position the nested call has reached. The model counts fuel:
  one unit for each call and each loop iteration; \<open>None\<close> means the fuel ran out.
  The position \<open>pos\<close> of the decoder object is passed in and returned.
\<close>

fun decode_at :: "nat \<Rightarrow> jsstring \<Rightarrow> nat \<Rightarrow> (decode_error + bvalue \<times> nat) option"
and decodeList :: "nat \<Rightarrow> jsstring \<Rightarrow> nat \<Rightarrow> bvalue list \<Rightarrow> (decode_error + bvalue \<times> nat) option"
and decodeDictionary ::
  "nat \<Rightarrow> jsstring \<Rightarrow> nat \<Rightarrow> (jsstring \<times> bvalue) list \<Rightarrow> (decode_error + bvalue \<times> nat) option"
where
  "decode_at 0 d pos = None"
| "decode_at (Suc n) d pos =
     (case charAt d pos of
        None \<Rightarrow> Some (Inl (InvalidData pos))
      | Some c \<Rightarrow>
          if c = of_char CHR ''i'' then Some (decodeInteger d pos)
          else if c = of_char CHR ''l'' then decodeList n d (pos + 1) []
          else if c = of_char CHR ''d'' then decodeDictionary n d (pos + 1) []
          else if is_digit c then Some (decodeString d pos)
          else Some (Inl (InvalidData pos)))"
| "decodeList 0 d pos result = None"
| "decodeList (Suc n) d pos result =
     (if charAt d pos \<noteq> Some (of_char CHR ''e'')
      then (if pos \<ge> length d then Some (Inl UnterminatedList)
            else case decode_at n d pos of
                   None \<Rightarrow> None
                 | Some (Inl err) \<Rightarrow> Some (Inl err)
                 | Some (Inr (v, pos')) \<Rightarrow> decodeList n d pos' (result @ [v]))
      else Some (Inr (BList result, pos + 1)))"
| "decodeDictionary 0 d pos result = None"
| "decodeDictionary (Suc n) d pos result =
     (if charAt d pos \<noteq> Some (of_char CHR ''e'')
      then (if pos \<ge> length d then Some (Inl UnterminatedDictionary)
            else case decode_at n d pos of
                   None \<Rightarrow> None
                 | Some (Inl err) \<Rightarrow> Some (Inl err)
                 | Some (Inr (BString key, pos')) \<Rightarrow>
                     (case decode_at n d pos' of
                        None \<Rightarrow> None
                      | Some (Inl err) \<Rightarrow> Some (Inl err)
                      | Some (Inr (v, pos'')) \<Rightarrow> decodeDictionary n d pos'' (obj_set result key v))
                 | Some (Inr (_, pos')) \<Rightarrow> Some (Inl KeyMustBeString))
      else Some (Inr (BDict result, pos + 1)))"

text \<open>
  \<^verbatim>\<open>new BencodeDecoder(data).decode()\<close> followed by \<^verbatim>\<open>getProcessedLength()\<close>: the
  decoder starts at position 0, so the position reached is the number of code units
  consumed. The fuel \<open>2 * length data + 1\<close> is never exhausted (\<open>decode_total\<close>).
\<close>

definition decode :: "jsstring \<Rightarrow> (decode_error + bvalue \<times> nat) option" where
  "decode d = decode_at (2 * length d + 1) d 0"

section \<open>Values up to the order of entries\<close>

text \<open>
  The decoder builds an object by assigning its entries in the order of the encoded text,
  which is the sorted order. \<open>decoded\<close> is the value this yields for the encoding of a
  value: in every object the entries are assigned, sorted as the encoder sorts them, to
  an empty object.
\<close>

definition set_entry :: "(jsstring \<times> 'v) list \<Rightarrow> jsstring \<times> 'v \<Rightarrow> (jsstring \<times> 'v) list" where
  "set_entry es e = obj_set es (fst e) (snd e)"

primrec decoded :: "(jsstring \<Rightarrow> jsstring \<Rightarrow> int) \<Rightarrow> bvalue \<Rightarrow> bvalue" where
  "decoded lc (BString s) = BString s"
| "decoded lc (BNumber n) = BNumber n"
| "decoded lc (BList xs) = BList (map (decoded lc) xs)"
| "decoded lc (BDict es) =
     BDict (foldl set_entry [] (sort_entries lc (map (map_prod id (decoded lc)) es)))"

text \<open>
  Two objects are the same value when they have the same keys with the same values,
  whatever the order in which the entries were inserted. \<open>denote\<close> maps a value to the
  nested lists and finite maps it stands for, and \<open>deep_equal\<close> compares two values
  there.
\<close>

datatype dvalue =
    DString jsstring
  | DNumber jsnum
  | DList "dvalue list"
  | DDict "(jsstring, dvalue) fmap"

primrec denote :: "bvalue \<Rightarrow> dvalue" where
  "denote (BString s) = DString s"
| "denote (BNumber n) = DNumber n"
| "denote (BList xs) = DList (map denote xs)"
| "denote (BDict es) = DDict (fmap_of_list (map (map_prod id denote) es))"

definition deep_equal :: "bvalue \<Rightarrow> bvalue \<Rightarrow> bool" where
  "deep_equal a b \<longleftrightarrow> denote a = denote b"

text \<open>
  The values of the data model: texts, integers that are numbers of the host (those of
  magnitude up to \<open>2^53\<close>, where the model of numbers is exact), lists, and maps whose
  keys are pairwise distinct.
\<close>

fun wf_value :: "bvalue \<Rightarrow> bool" where
  "wf_value (BString s) = True"
| "wf_value (BNumber n) = (case n of NaN \<Rightarrow> False | Num k \<Rightarrow> - (2 ^ 53) \<le> k \<and> k \<le> 2 ^ 53)"
| "wf_value (BList xs) = (\<forall>x \<in> set xs. wf_value x)"
| "wf_value (BDict es) = (distinct (map fst es) \<and> (\<forall>e \<in> set es. wf_value (snd e)))"

text \<open>No object in the value has the key \<^verbatim>\<open>__proto__\<close>.\<close>

fun plain_keys :: "bvalue \<Rightarrow> bool" where
  "plain_keys (BString s) = True"
| "plain_keys (BNumber n) = True"
| "plain_keys (BList xs) = (\<forall>x \<in> set xs. plain_keys x)"
| "plain_keys (BDict es) =
     (js ''__proto__'' \<notin> fst ` set es \<and> (\<forall>e \<in> set es. plain_keys (snd e)))"

text \<open>
  Strings ordered by their code units, the result negative, zero or positive. This is
  not the platform's comparison; it is the building block of \<open>locale_compare\<close> below,
  and the comparison given to \<open>send\<close> in examples where the order of keys plays no role.
\<close>

fun compare_units :: "jsstring \<Rightarrow> jsstring \<Rightarrow> int" where
  "compare_units [] [] = 0"
| "compare_units [] (y # ys) = - 1"
| "compare_units (x # xs) [] = 1"
| "compare_units (x # xs) (y # ys) =
     (if x < y then - 1 else if y < x then 1 else compare_units xs ys)"

text \<open>
  The platform's \<^verbatim>\<open>a.localeCompare(b)\<close> is a collation, not a comparison of code
  units. The language standard requires the result 0 for canonically equivalent
  strings, and the collation of the host orders two strings by their letters without
  regard to accent and case first (so \<^verbatim>\<open>a\<close> comes before \<^verbatim>\<open>B\<close>), then by accent,
  then by case with the lower-case letter first. \<open>locale_compare\<close> is that comparison
  for strings of ASCII letters, digits and the letter e with acute accent, which is
  written either as the code unit 00E9 or as \<^verbatim>\<open>e\<close> followed by the combining accent
  0301; it returns -1, 0 or 1 as the host does. On other code units it compares their
  values, which is not the host's order.
\<close>

definition decompose :: "16 word \<Rightarrow> jsstring" where
  "decompose c = (if c = 0xE9 then [0x65, 0x301] else [c])"

definition canonical_form :: "jsstring \<Rightarrow> jsstring" where
  "canonical_form s = concat (map decompose s)"

definition is_mark :: "16 word \<Rightarrow> bool" where
  "is_mark c \<longleftrightarrow> 0x300 \<le> c \<and> c \<le> 0x36F"

definition to_lower :: "16 word \<Rightarrow> 16 word" where
  "to_lower c = (if 0x41 \<le> c \<and> c \<le> 0x5A then c + 0x20 else c)"

definition locale_compare :: "jsstring \<Rightarrow> jsstring \<Rightarrow> int" where
  "locale_compare a b =
     (let ca = canonical_form a;
          cb = canonical_form b;
          letters = compare_units (map to_lower (filter (\<lambda>c. \<not> is_mark c) ca))
                                  (map to_lower (filter (\<lambda>c. \<not> is_mark c) cb));
          accents = compare_units (map to_lower ca) (map to_lower cb)
      in if letters \<noteq> 0 then letters
         else if accents \<noteq> 0 then accents
         else compare_units cb ca)"

section \<open>Reference notions used in the statements\<close>

text \<open>
  The byte count of the UTF-8 form of a string, which is what the socket transmits: a
  surrogate pair is one character of four bytes; any other code unit is a character of
  one, two or three bytes (an unpaired surrogate is sent as the three-byte replacement
  character).
\<close>

fun utf8_byte_count :: "jsstring \<Rightarrow> nat" where
  "utf8_byte_count [] = 0"
| "utf8_byte_count [c] = (if unat c < 128 then 1 else if unat c < 2048 then 2 else 3)"
| "utf8_byte_count (c # c' # cs) =
     (if 0xD800 \<le> c \<and> c \<le> 0xDBFF \<and> 0xDC00 \<le> c' \<and> c' \<le> 0xDFFF
      then 4 + utf8_byte_count cs
      else (if unat c < 128 then 1 else if unat c < 2048 then 2 else 3)
             + utf8_byte_count (c' # cs))"

text \<open>The first half of a surrogate pair.\<close>

definition is_high_surrogate :: "16 word \<Rightarrow> bool" where
  "is_high_surrogate c \<longleftrightarrow> 0xD800 \<le> c \<and> c \<le> 0xDBFF"


text \<open>
  What the sort needs from the platform's comparison on a set of keys: any two keys are
  comparable, two different keys never compare as equal, and the order is transitive.
\<close>

definition consistent_on :: "(jsstring \<Rightarrow> jsstring \<Rightarrow> int) \<Rightarrow> jsstring set \<Rightarrow> bool" where
  "consistent_on lc K \<longleftrightarrow>
     (\<forall>a\<in>K. \<forall>b\<in>K. lc a b \<le> 0 \<or> lc b a \<le> 0)
   \<and> (\<forall>a\<in>K. \<forall>b\<in>K. lc a b \<le> 0 \<and> lc b a \<le> 0 \<longrightarrow> a = b)
   \<and> (\<forall>a\<in>K. \<forall>b\<in>K. \<forall>c\<in>K. lc a b \<le> 0 \<and> lc b c \<le> 0 \<longrightarrow> lc a c \<le> 0)"

text \<open>
  The comparison is consistent on the keys of every map in a value, the nested ones
  included.
\<close>

fun keys_consistent :: "(jsstring \<Rightarrow> jsstring \<Rightarrow> int) \<Rightarrow> bvalue \<Rightarrow> bool" where
  "keys_consistent lc (BString s) = True"
| "keys_consistent lc (BNumber n) = True"
| "keys_consistent lc (BList xs) = (\<forall>x \<in> set xs. keys_consistent lc x)"
| "keys_consistent lc (BDict es) =
     (consistent_on lc (fst ` set es) \<and> (\<forall>e \<in> set es. keys_consistent lc (snd e)))"

text \<open>The order of two entries by their keys.\<close>

definition key_le :: "(jsstring \<Rightarrow> jsstring \<Rightarrow> int) \<Rightarrow> jsstring \<times> 'v \<Rightarrow> jsstring \<times> 'v \<Rightarrow> bool" where
  "key_le lc a b \<longleftrightarrow> lc (fst a) (fst b) \<le> 0"


text \<open>
  A decoding step from position \<open>pos\<close> makes progress: it returns, and when it returns a
  value the position it reaches is beyond \<open>pos\<close> and within the data.
\<close>

definition progress :: "jsstring \<Rightarrow> nat \<Rightarrow> (decode_error + bvalue \<times> nat) option \<Rightarrow> bool" where
  "progress d pos r \<longleftrightarrow>
     (\<exists>x. r = Some x \<and> (\<forall>v p. x = Inr (v, p) \<longrightarrow> pos < p \<and> p \<le> length d))"


text \<open>
  Outcomes of decoding data that was cut short: \<open>fails\<close> is an error; \<open>cut_short\<close> is
  an error or a value that ends exactly where the data ends.
\<close>

definition fails :: "(decode_error + bvalue \<times> nat) option \<Rightarrow> bool" where
  "fails r \<longleftrightarrow> (\<exists>e. r = Some (Inl e))"

definition cut_short :: "jsstring \<Rightarrow> (decode_error + bvalue \<times> nat) option \<Rightarrow> bool" where
  "cut_short d r \<longleftrightarrow> fails r \<or> (\<exists>w. r = Some (Inr (w, length d)))"


text \<open>
  The texts on which \<open>parseInt\<close> above is the platform's \<^verbatim>\<open>parseInt\<close>: those without
  a digit run, and those whose digit run denotes at most \<open>2^53\<close>, every integer up to
  which is a number of the host. A larger value is rounded by the host to a nearby
  number, and for a zero after a minus sign the host returns its negative zero; neither
  is a value of \<open>jsnum\<close>.
\<close>

definition minus_sign :: "jsstring \<Rightarrow> bool" where
  "minus_sign s = (let s1 = dropWhile is_white s in s1 \<noteq> [] \<and> hd s1 = of_char CHR ''-'')"

definition exactly_parsed :: "jsstring \<Rightarrow> bool" where
  "exactly_parsed s \<longleftrightarrow>
     (case parseInt s of
        NaN \<Rightarrow> True
      | Num n \<Rightarrow> - (2 ^ 53) \<le> n \<and> n \<le> 2 ^ 53 \<and> (n = 0 \<longrightarrow> \<not> minus_sign s))"
section \<open>The protocol client\<close>

text \<open>
  \<^verbatim>\<open>NReplResponse\<close>: a decoded response seen through its interface; an absent field
  is \<open>None\<close>. The fields are \<^verbatim>\<open>id\<close>, \<^verbatim>\<open>session\<close>, \<^verbatim>\<open>value\<close>,
  \<^verbatim>\<open>new-session\<close>, \<^verbatim>\<open>status\<close>, \<^verbatim>\<open>ex\<close>, \<^verbatim>\<open>root-ex\<close>, \<^verbatim>\<open>out\<close> and
  \<^verbatim>\<open>err\<close>.
\<close>

record response =
  r_id :: "jsstring option"
  r_session :: "jsstring option"
  r_value :: "jsstring option"
  r_new_session :: "jsstring option"
  r_status :: "jsstring list option"
  r_ex :: "jsstring option"
  r_root_ex :: "jsstring option"
  r_out :: "jsstring option"
  r_err :: "jsstring option"

text \<open>\<^verbatim>\<open>NReplMessage\<close> as the client builds it: \<^verbatim>\<open>op\<close>, \<^verbatim>\<open>code\<close>, \<^verbatim>\<open>session\<close>.\<close>

record message =
  m_op :: jsstring
  m_code :: "jsstring option"
  m_session :: "jsstring option"

text \<open>
  Every failure of the client is an \<^verbatim>\<open>Error\<close> object with a message text. The message
  of a timed-out request is \<^verbatim>\<open>nREPL request timed out. Message: \<close> followed by the
  request in JSON; the model keeps the request itself (\<open>TimeoutError\<close>). \<open>TypeError\<close>
  is the host's error for reading a property of \<^verbatim>\<open>undefined\<close>.
\<close>

datatype js_error =
    Error jsstring
  | TimeoutError message
  | TypeError

text \<open>The state of the promise that \<^verbatim>\<open>send\<close> returns.\<close>

datatype 'a promise = Pending | Resolved 'a | Rejected js_error

text \<open>
  \<^verbatim>\<open>NReplClient\<close>. \<open>messageCallbacks\<close> maps a request id to the callback registered
  for it, represented by the accumulator \<^verbatim>\<open>responses\<close> the callback has captured.
  \<open>lastError\<close> holds the error whose message text the field stores. Three fields
  stand for the environment: \<open>timers\<close> (the armed timers of \<^verbatim>\<open>send\<close>, by request id,
  with their delay in milliseconds and the request they captured), \<open>promises\<close> (the
  promise returned by \<^verbatim>\<open>send\<close> for each request id) and \<open>written\<close> (what was written
  to the socket).
\<close>

record client =
  buffer :: jsstring
  messageCallbacks :: "jsstring \<rightharpoonup> response list"
  sessionId :: "jsstring option"
  lastError :: "js_error option"
  connected :: bool
  timers :: "jsstring \<rightharpoonup> nat \<times> message"
  promises :: "jsstring \<rightharpoonup> response list promise"
  written :: "jsstring list"

text \<open>The fields as the constructor leaves them.\<close>

definition new_client :: client where
  "new_client =
     \<lparr> buffer = [], messageCallbacks = Map.empty, sessionId = None, lastError = None,
       connected = False, timers = Map.empty, promises = Map.empty, written = [] \<rparr>"

text \<open>
  Truthiness of an optional string: \<^verbatim>\<open>undefined\<close> and the empty string are falsy.
  \<open>or_else a b\<close> is \<^verbatim>\<open>a || b\<close>.
\<close>

definition truthy :: "jsstring option \<Rightarrow> bool" where
  "truthy x = (case x of None \<Rightarrow> False | Some s \<Rightarrow> s \<noteq> [])"

definition or_else :: "jsstring option \<Rightarrow> jsstring option \<Rightarrow> jsstring option" where
  "or_else a b = (if truthy a then a else b)"

text \<open>\<^verbatim>\<open>response.status?.includes('done')\<close>.\<close>

definition includes_done :: "response \<Rightarrow> bool" where
  "includes_done r = (case r_status r of None \<Rightarrow> False | Some st \<Rightarrow> js ''done'' \<in> set st)"

text \<open>\<^verbatim>\<open>resolve\<close> and \<^verbatim>\<open>reject\<close> act on a pending promise only.\<close>

definition settle ::
  "(jsstring \<rightharpoonup> response list promise) \<Rightarrow> jsstring \<Rightarrow> response list promise
     \<Rightarrow> (jsstring \<rightharpoonup> response list promise)"
where
  "settle ps i outcome = (case ps i of Some Pending \<Rightarrow> ps(i \<mapsto> outcome) | _ \<Rightarrow> ps)"

text \<open>
  The callback of \<^verbatim>\<open>connect\<close>, and the handlers that \<^verbatim>\<open>setupSocketHandlers\<close>
  installs for \<^verbatim>\<open>error\<close> and \<^verbatim>\<open>close\<close>. The waiting of \<^verbatim>\<open>ensureConnected\<close>
  for a new socket is not part of the model.
\<close>

definition on_connect :: "client \<Rightarrow> client" where
  "on_connect s = s\<lparr>connected := True\<rparr>"

definition on_error :: "client \<Rightarrow> jsstring \<Rightarrow> client" where
  "on_error s msg = s\<lparr>connected := False, lastError := Some (Error msg)\<rparr>"

definition on_close :: "client \<Rightarrow> client" where
  "on_close s =
     (let s1 = s\<lparr>connected := False\<rparr>
      in if lastError s1 = None \<or> lastError s1 = Some (Error [])
         then s1\<lparr>lastError := Some (Error (js ''Connection closed''))\<rparr>
         else s1)"

text \<open>\<^verbatim>\<open>{ ...message, id }\<close>, the object that \<^verbatim>\<open>send\<close> encodes.\<close>

definition message_value :: "message \<Rightarrow> jsstring \<Rightarrow> bvalue" where
  "message_value m i =
     BDict ([(js ''op'', BString (m_op m))]
            @ (case m_code m of None \<Rightarrow> [] | Some c \<Rightarrow> [(js ''code'', BString c)])
            @ (case m_session m of None \<Rightarrow> [] | Some x \<Rightarrow> [(js ''session'', BString x)])
            @ [(js ''id'', BString i)])"

text \<open>
  \<^verbatim>\<open>send\<close>: arm the 30000 ms timer, register the callback with an empty accumulator,
  encode and write the request. The id \<open>i\<close> is the text drawn from
  \<^verbatim>\<open>Math.random()\<close>. The encoder cannot throw on a request, so the \<^verbatim>\<open>catch\<close>
  branch is not reached.
\<close>

definition send :: "(jsstring \<Rightarrow> jsstring \<Rightarrow> int) \<Rightarrow> client \<Rightarrow> jsstring \<Rightarrow> message \<Rightarrow> client" where
  "send lc s i m =
     s\<lparr> timers := (timers s)(i \<mapsto> (30000, m)),
        messageCallbacks := (messageCallbacks s)(i \<mapsto> []),
        promises := (promises s)(i \<mapsto> Pending),
        written := written s @ [encode lc (message_value m i)] \<rparr>"

text \<open>The timer callback of \<^verbatim>\<open>send\<close>; it runs only while the timer is armed.\<close>

definition timeout_fired :: "client \<Rightarrow> jsstring \<Rightarrow> client" where
  "timeout_fired s i =
     (case timers s i of
        None \<Rightarrow> s
      | Some (delay, m) \<Rightarrow>
          s\<lparr> timers := (timers s)(i := None),
             messageCallbacks := (messageCallbacks s)(i := None),
             lastError := Some (TimeoutError m),
             promises := settle (promises s) i (Rejected (TimeoutError m)) \<rparr>)"

text \<open>
  The callback that \<^verbatim>\<open>send\<close> registers for id \<open>i\<close>, applied to a response; \<open>acc\<close> is
  its accumulator.
\<close>

definition callback :: "client \<Rightarrow> jsstring \<Rightarrow> response list \<Rightarrow> response \<Rightarrow> client" where
  "callback s i acc r =
     (let responses = acc @ [r]
      in if includes_done r
         then s\<lparr> timers := (timers s)(i := None),
                 messageCallbacks := (messageCallbacks s)(i := None),
                 promises := settle (promises s) i (Resolved responses) \<rparr>
         else s\<lparr> messageCallbacks := (messageCallbacks s)(i \<mapsto> responses) \<rparr>)"

text \<open>
  The body of the loop of \<^verbatim>\<open>handleData\<close> for one decoded response: look the callback
  up by the response's id, call it, and delete it when the status includes
  \<^verbatim>\<open>done\<close>.
\<close>

definition handleData_response :: "client \<Rightarrow> response \<Rightarrow> client" where
  "handleData_response s r =
     (case r_id r of
        None \<Rightarrow> s
      | Some i \<Rightarrow>
          if i = [] then s
          else (case messageCallbacks s i of
                  None \<Rightarrow> s
                | Some acc \<Rightarrow>
                    (let s1 = callback s i acc r
                     in if includes_done r
                        then s1\<lparr>messageCallbacks := (messageCallbacks s1)(i := None)\<rparr>
                        else s1)))"

text \<open>
  \<^verbatim>\<open>clone\<close> from the point where \<^verbatim>\<open>await this.send(...)\<close> has delivered the
  accumulated responses.
\<close>

definition clone_result :: "client \<Rightarrow> response list \<Rightarrow> client \<times> (js_error + jsstring)" where
  "clone_result s responses =
     (case responses of
        [] \<Rightarrow> (s, Inl TypeError)
      | r0 # _ \<Rightarrow>
          (let newSession = r_new_session r0
           in if \<not> truthy newSession
              then (s, Inl (Error (js ''Failed to create new session'')))
              else (s\<lparr>sessionId := newSession\<rparr>, Inr (the newSession))))"

text \<open>
  \<^verbatim>\<open>eval\<close> in two parts: up to the call of \<^verbatim>\<open>send\<close> (after \<^verbatim>\<open>ensureConnected\<close>
  has returned), and from the point where the accumulated responses are delivered.
\<close>

definition eval_request :: "client \<Rightarrow> jsstring \<Rightarrow> js_error + message" where
  "eval_request s code =
     (if \<not> truthy (sessionId s) then Inl (Error (js ''No active session''))
      else Inr \<lparr> m_op = js ''eval'', m_code = Some code, m_session = sessionId s \<rparr>)"

definition eval_result :: "client \<Rightarrow> response list \<Rightarrow> client \<times> (js_error + jsstring)" where
  "eval_result s responses =
     (let errors = filter truthy (map (\<lambda>r. or_else (or_else (r_ex r) (r_root_ex r)) (r_err r)) responses)
      in if length errors > 0
         then (let errorMsg = join [0x0A] (map the errors)
               in (s\<lparr>lastError := Some (Error errorMsg)\<rparr>, Inl (Error errorMsg)))
         else (let output = filter truthy (map (\<lambda>r. or_else (r_value r) (r_out r)) responses)
               in (s, Inr (join [0x0A] (map the output)))))"

text \<open>
  The states the client can be in: the handlers run to completion one at a time, in any
  order. A request id is assumed fresh when it is drawn.
\<close>

inductive reachable :: "(jsstring \<Rightarrow> jsstring \<Rightarrow> int) \<Rightarrow> client \<Rightarrow> bool" for lc where
  start: "reachable lc new_client"
| sent: "reachable lc s \<Longrightarrow> timers s i = None \<Longrightarrow> messageCallbacks s i = None
          \<Longrightarrow> promises s i = None \<Longrightarrow> reachable lc (send lc s i m)"
| received: "reachable lc s \<Longrightarrow> reachable lc (handleData_response s r)"
| deadline: "reachable lc s \<Longrightarrow> reachable lc (timeout_fired s i)"
| socket_connect: "reachable lc s \<Longrightarrow> reachable lc (on_connect s)"
| socket_error: "reachable lc s \<Longrightarrow> reachable lc (on_error s msg)"
| socket_close: "reachable lc s \<Longrightarrow> reachable lc (on_close s)"
| cloned: "reachable lc s \<Longrightarrow> reachable lc (fst (clone_result s rs))"
| evaluated: "reachable lc s \<Longrightarrow> reachable lc (fst (eval_result s rs))"

text \<open>The first of several optional fields that is present and not empty.\<close>

definition first_nonempty :: "jsstring option list \<Rightarrow> jsstring option" where
  "first_nonempty xs = (case filter truthy xs of [] \<Rightarrow> None | x # _ \<Rightarrow> x)"


text \<open>A response with no field present, for the concrete examples.\<close>

definition no_fields :: response where
  "no_fields =
     \<lparr> r_id = None, r_session = None, r_value = None, r_new_session = None, r_status = None,
       r_ex = None, r_root_ex = None, r_out = None, r_err = None \<rparr>"


text \<open>
  Every armed timer was set for 30000 ms and belongs to a request whose promise is
  pending and whose callback is registered.
\<close>

definition armed_pending :: "client \<Rightarrow> bool" where
  "armed_pending s \<longleftrightarrow>
     (\<forall>i d m. timers s i = Some (d, m) \<longrightarrow>
        d = 30000 \<and> promises s i = Some Pending \<and> messageCallbacks s i \<noteq> None)"

text \<open>
  Every request whose promise is pending has its timer armed, with 30000 ms.
\<close>

definition pending_armed :: "client \<Rightarrow> bool" where
  "pending_armed s \<longleftrightarrow>
     (\<forall>i. promises s i = Some Pending \<longrightarrow> (\<exists>m. timers s i = Some (30000, m)))"

text \<open>
  The request that an armed timer has captured is one that was written to the socket
  under the id of the timer.
\<close>

definition timer_sent :: "(jsstring \<Rightarrow> jsstring \<Rightarrow> int) \<Rightarrow> client \<Rightarrow> bool" where
  "timer_sent lc s \<longleftrightarrow>
     (\<forall>i d m. timers s i = Some (d, m) \<longrightarrow> encode lc (message_value m i) \<in> set (written s))"
section \<open>Properties of the codec\<close>

subsection \<open>Decimal digits and \<open>parseInt\<close>\<close>

lemma is_digit_unat: "is_digit c \<longleftrightarrow> 48 \<le> unat c \<and> unat c \<le> 57"
  by (simp add: is_digit_def word_le_nat_alt)

lemma unat_digit_char: "k < 10 \<Longrightarrow> unat (digit_char k) = 48 + k"
  unfolding digit_char_def unat_of_nat by simp

lemma is_digit_digit_char: "k < 10 \<Longrightarrow> is_digit (digit_char k)"
  by (simp add: is_digit_unat unat_digit_char)

lemma digits10_ne: "digits10 n \<noteq> []"
  by (subst digits10.simps) simp

lemma digits10_all: "\<forall>c \<in> set (digits10 n). is_digit c"
proof (induction n rule: digits10.induct)
  case (1 n)
  show ?case
  proof (cases "n < 10")
    case True
    then show ?thesis by (subst digits10.simps) (simp add: is_digit_digit_char)
  next
    case False
    with 1 show ?thesis by (subst digits10.simps) (simp add: is_digit_digit_char)
  qed
qed

lemma digits_value_snoc: "digits_value (ds @ [c]) = 10 * digits_value ds + (unat c - 48)"
  by (simp add: digits_value_def)

lemma digits_value_digits10: "digits_value (digits10 n) = n"
proof (induction n rule: digits10.induct)
  case (1 n)
  show ?case
  proof (cases "n < 10")
    case True
    then show ?thesis
      by (subst digits10.simps) (simp add: digits_value_def unat_digit_char)
  next
    case False
    with 1 show ?thesis
      by (subst digits10.simps) (simp add: digits_value_snoc unat_digit_char)
  qed
qed

lemma not_white_digit: "is_digit c \<Longrightarrow> \<not> is_white c"
  by (auto simp: is_digit_unat is_white_def word_le_nat_alt)

lemma hd_digits10: "is_digit (hd (digits10 n))"
  using digits10_all [of n] digits10_ne [of n] by (cases "digits10 n") auto

lemma takeWhile_digits: "(\<forall>c \<in> set ds. is_digit c) \<Longrightarrow> (rest = [] \<or> \<not> is_digit (hd rest)) \<Longrightarrow>
  takeWhile is_digit (ds @ rest) = ds"
  by (cases rest) (auto simp: takeWhile_append2)

lemma parseInt_digit_first:
  assumes "is_digit c"
  shows "parseInt (c # cs) = Num (int (digits_value (takeWhile is_digit (c # cs))))"
proof -
  have nw: "\<not> is_white c" using assms by (rule not_white_digit)
  have ns: "c \<noteq> of_char CHR ''-''" "c \<noteq> of_char CHR ''+''"
    using assms by (auto simp: is_digit_unat)
  show ?thesis
    using nw ns assms by (simp add: parseInt_def Let_def)
qed

lemma parseInt_digits10:
  assumes "rest = [] \<or> \<not> is_digit (hd rest)"
  shows "parseInt (digits10 n @ rest) = Num (int n)"
proof -
  obtain c cs where dc: "digits10 n = c # cs"
    using digits10_ne [of n] by (cases "digits10 n") auto
  have c: "is_digit c" using hd_digits10 [of n] dc by simp
  have tw: "takeWhile is_digit (digits10 n @ rest) = digits10 n"
    using digits10_all assms by (rule takeWhile_digits)
  have "parseInt (digits10 n @ rest) = parseInt (c # (cs @ rest))"
    by (simp add: dc)
  also have "\<dots> = Num (int (digits_value (takeWhile is_digit (c # (cs @ rest)))))"
    using c by (rule parseInt_digit_first)
  also have "c # (cs @ rest) = digits10 n @ rest"
    by (simp add: dc)
  finally show ?thesis
    by (simp only: tw digits_value_digits10)
qed

lemma parseInt_number_to_string:
  assumes "rest = [] \<or> \<not> is_digit (hd rest)"
  shows "parseInt (number_to_string (Num k) @ rest) = Num k"
proof (cases "k < 0")
  case False
  then show ?thesis
    using parseInt_digits10 [OF assms, of "nat k"] by (simp add: number_to_string_def)
next
  case True
  have tw: "takeWhile is_digit (digits10 (nat (- k)) @ rest) = digits10 (nat (- k))"
    using digits10_all assms by (rule takeWhile_digits)
  have nw: "\<not> is_white (of_char CHR ''-'')"
    by (simp add: is_white_def)
  show ?thesis
    using True nw digits10_ne [of "nat (- k)"]
    by (simp add: number_to_string_def parseInt_def Let_def tw digits_value_digits10)
qed

lemma number_to_string_no_e: "of_char CHR ''e'' \<notin> set (number_to_string (Num k))"
  using digits10_all [of "nat k"] digits10_all [of "nat (- k)"]
  by (auto simp: number_to_string_def is_digit_unat)

lemma digits10_no_colon: "of_char CHR '':'' \<notin> set (digits10 n)"
  using digits10_all [of n] by (auto simp: is_digit_unat)

lemma charAt_append_length [simp]: "charAt (pre @ c # rest) (length pre) = Some c"
  by (simp add: charAt_def)

lemma charAt_end [simp]: "charAt d (length d) = None"
  by (simp add: charAt_def)

lemma scan_integer_found:
  "of_char CHR ''e'' \<notin> set s \<Longrightarrow>
   scan_integer (pre @ s @ of_char CHR ''e'' # rest) (length pre) = Inr (length pre + length s)"
proof (induction s arbitrary: pre)
  case Nil
  then show ?case by (subst scan_integer.simps) simp
next
  case (Cons c s)
  have "scan_integer ((pre @ [c]) @ s @ of_char CHR ''e'' # rest) (length (pre @ [c]))
        = Inr (length (pre @ [c]) + length s)"
    using Cons.prems by (intro Cons.IH) simp
  then show ?case
    using Cons.prems by (subst scan_integer.simps) (simp add: charAt_def nth_append)
qed

lemma scan_integer_missing:
  "of_char CHR ''e'' \<notin> set (drop pos d) \<Longrightarrow> scan_integer d pos = Inl UnterminatedInteger"
proof (induction d pos rule: scan_integer.induct)
  case (1 d pos)
  show ?case
  proof (cases "pos < length d")
    case False
    then show ?thesis by (subst scan_integer.simps) (simp add: charAt_def)
  next
    case True
    then have d: "drop pos d = d ! pos # drop (Suc pos) d"
      by (simp add: Cons_nth_drop_Suc)
    with "1.prems" have ne: "d ! pos \<noteq> of_char CHR ''e''" and
      rest: "of_char CHR ''e'' \<notin> set (drop (pos + 1) d)" by auto
    have "scan_integer d (pos + 1) = Inl UnterminatedInteger"
      using True ne rest by (intro "1.IH") (simp_all add: charAt_def)
    then show ?thesis
      using True ne by (subst scan_integer.simps) (simp add: charAt_def)
  qed
qed

lemma scan_integer_result:
  "scan_integer d pos = Inr p \<Longrightarrow> pos \<le> p \<and> p < length d \<and> d ! p = of_char CHR ''e''
     \<and> of_char CHR ''e'' \<notin> set (slice_js d pos p)"
proof (induction d pos rule: scan_integer.induct)
  case (1 d pos)
  show ?case
  proof (cases "charAt d pos = Some (of_char CHR ''e'')")
    case True
    with "1.prems" have "p = pos" by (subst (asm) scan_integer.simps) simp
    with True show ?thesis by (auto simp: charAt_def slice_js_def split: if_splits)
  next
    case False
    with "1.prems" have lt: "pos < length d" and rec: "scan_integer d (pos + 1) = Inr p"
      by (subst (asm) scan_integer.simps, simp split: if_splits)+
    from "1.IH" [OF False _ rec] lt
    have ih: "pos + 1 \<le> p" "p < length d" "d ! p = of_char CHR ''e''"
      "of_char CHR ''e'' \<notin> set (slice_js d (pos + 1) p)" by auto
    have ne: "d ! pos \<noteq> of_char CHR ''e''" using False lt by (simp add: charAt_def)
    have "p - pos = Suc (p - (pos + 1))" using ih(1) by simp
    moreover have "drop pos d = d ! pos # drop (pos + 1) d"
      using lt by (simp add: Cons_nth_drop_Suc)
    ultimately have "slice_js d pos p = d ! pos # slice_js d (pos + 1) p"
      by (simp add: slice_js_def)
    with ih ne show ?thesis by auto
  qed
qed

lemma scan_integer_error: "scan_integer d pos = Inl err \<Longrightarrow>
   err = UnterminatedInteger \<and> of_char CHR ''e'' \<notin> set (drop pos d)"
proof (induction d pos rule: scan_integer.induct)
  case (1 d pos)
  show ?case
  proof (cases "pos < length d")
    case False
    with "1.prems" show ?thesis
      by (subst (asm) scan_integer.simps) (simp add: charAt_def)
  next
    case True
    with "1.prems" have ne: "d ! pos \<noteq> of_char CHR ''e''"
      and rec: "scan_integer d (pos + 1) = Inl err"
      by (subst (asm) scan_integer.simps, simp add: charAt_def split: if_splits)+
    have "err = UnterminatedInteger \<and> of_char CHR ''e'' \<notin> set (drop (pos + 1) d)"
      using True ne rec by (intro "1.IH") (simp_all add: charAt_def)
    moreover have "drop pos d = d ! pos # drop (Suc pos) d"
      using True by (simp add: Cons_nth_drop_Suc)
    ultimately show ?thesis using ne by simp
  qed
qed

lemma slice_js_middle [simp]: "slice_js (pre @ s @ rest) (length pre) (length pre + length s) = s"
  by (simp add: slice_js_def)

lemma decodeInteger_ok:
  "of_char CHR ''e'' \<notin> set s \<Longrightarrow>
   decodeInteger (pre @ of_char CHR ''i'' # s @ of_char CHR ''e'' # rest) (length pre)
     = Inr (BNumber (parseInt s), length pre + length s + 2)"
proof -
  assume ne: "of_char CHR ''e'' \<notin> set s"
  let ?p = "pre @ [of_char CHR ''i'']"
  have sc: "scan_integer (?p @ s @ of_char CHR ''e'' # rest) (length ?p) = Inr (length ?p + length s)"
    using ne by (rule scan_integer_found)
  have sl: "slice_js (?p @ s @ of_char CHR ''e'' # rest) (length ?p) (length ?p + length s) = s"
    by (rule slice_js_middle)
  show ?thesis
    using sc sl by (simp add: decodeInteger_def)
qed

lemma index_from_found:
  "c \<notin> set s \<Longrightarrow> index_from c (s @ c # rest) i = Some (i + length s)"
  by (induction s arbitrary: i) auto

lemma indexOf_found:
  "c \<notin> set s \<Longrightarrow> indexOf c (pre @ s @ c # rest) (length pre) = Some (length pre + length s)"
  by (simp add: indexOf_def index_from_found)

lemma index_from_bounds:
  "index_from c xs i = Some j \<Longrightarrow> i \<le> j \<and> j < i + length xs"
proof (induction xs arbitrary: i)
  case Nil
  then show ?case by simp
next
  case (Cons x xs)
  show ?case
  proof (cases "x = c")
    case True
    with Cons.prems show ?thesis by simp
  next
    case False
    with Cons.prems have "index_from c xs (Suc i) = Some j" by simp
    from Cons.IH [OF this] show ?thesis by simp
  qed
qed

lemma indexOf_bounds: "indexOf c d pos = Some j \<Longrightarrow> pos \<le> j \<and> j < length d"
  by (cases "pos \<le> length d") (auto simp: indexOf_def dest!: index_from_bounds)

lemma unit_bytes_pos: "0 < unit_bytes c"
  by (simp add: unit_bytes_def Let_def)

lemma unit_bytes_le3: "unit_bytes c \<le> 3"
proof -
  have "unat c < 65536" using unsigned_less [of c, where 'a = nat] by simp
  then show ?thesis by (simp add: unit_bytes_def Let_def)
qed

lemma string_end_exact:
  "string_end (pre @ s @ rest) (Num (int (c + getUTF8ByteLength s))) (length pre) c
     = length pre + length s"
proof (induction s arbitrary: pre c)
  case Nil
  show ?case by (subst string_end.simps) (simp add: less_num_def)
next
  case (Cons x s)
  have ih: "string_end ((pre @ [x]) @ s @ rest)
              (Num (int ((c + unit_bytes x) + getUTF8ByteLength s))) (length (pre @ [x]))
              (c + unit_bytes x) = length (pre @ [x]) + length s"
    by (rule Cons.IH)
  have cond: "less_num c (Num (int (c + getUTF8ByteLength (x # s))))"
    using unit_bytes_pos [of x] by (simp add: less_num_def)
  show ?case
    using cond ih by (subst string_end.simps) (simp add: add.assoc)
qed

lemma string_end_le: "e \<le> length d \<Longrightarrow> string_end d b e c \<le> length d"
proof (induction d b e c rule: string_end.induct)
  case (1 d b e c)
  then show ?case by (subst string_end.simps) simp
qed

lemma string_end_ge: "e \<le> string_end d b e c"
proof (induction d b e c rule: string_end.induct)
  case (1 d b e c)
  then show ?case by (subst string_end.simps) (auto dest: Suc_leD)
qed

lemma decodeString_never_exceeds: "decodeString d pos \<noteq> Inl StringLengthExceedsData"
proof (cases "indexOf (of_char CHR '':'') d pos")
  case None
  then show ?thesis by (simp add: decodeString_def)
next
  case (Some j)
  then have "j + 1 \<le> length d" using indexOf_bounds [OF Some] by simp
  then have "string_end d b (j + 1) 0 \<le> length d" for b by (rule string_end_le)
  then have "\<not> length d < string_end d b (j + 1) 0" for b by (simp add: not_less)
  then show ?thesis using Some by (simp add: decodeString_def Let_def)
qed

lemma decodeString_progress:
  "decodeString d pos = Inr (v, p) \<Longrightarrow> pos < p \<and> p \<le> length d"
proof -
  assume a: "decodeString d pos = Inr (v, p)"
  then obtain j where j: "indexOf (of_char CHR '':'') d pos = Some j"
    by (cases "indexOf (of_char CHR '':'') d pos") (auto simp: decodeString_def)
  then have b: "pos \<le> j" "j + 1 \<le> length d" using indexOf_bounds [OF j] by simp_all
  from a j have "p = string_end d (parseInt (slice_js d pos j)) (j + 1) 0"
    by (auto simp: decodeString_def Let_def split: if_splits)
  moreover have "j + 1 \<le> string_end d (parseInt (slice_js d pos j)) (j + 1) 0"
    by (rule string_end_ge)
  moreover have "string_end d (parseInt (slice_js d pos j)) (j + 1) 0 \<le> length d"
    using b(2) by (rule string_end_le)
  ultimately show ?thesis using b(1) by linarith
qed

lemma decodeString_ok:
  "decodeString (pre @ number_to_string (Num (int (getUTF8ByteLength s))) @ of_char CHR '':'' # s @ rest)
           (length pre)
         = Inr (BString s, length pre + length (number_to_string (Num (int (getUTF8ByteLength s)))) + 1 + length s)"
proof -
  let ?n = "getUTF8ByteLength s"
  let ?ds = "digits10 ?n"
  let ?d = "pre @ ?ds @ of_char CHR '':'' # s @ rest"
  have nts: "number_to_string (Num (int ?n)) = ?ds"
    by (simp add: number_to_string_def)
  have ix: "indexOf (of_char CHR '':'') ?d (length pre) = Some (length pre + length ?ds)"
    using digits10_no_colon by (rule indexOf_found)
  have sl: "slice_js ?d (length pre) (length pre + length ?ds) = ?ds"
    by (rule slice_js_middle)
  have pi: "parseInt ?ds = Num (int ?n)"
    using parseInt_digits10 [of "[]" ?n] by simp
  let ?pre2 = "pre @ ?ds @ [of_char CHR '':'']"
  have se: "string_end (?pre2 @ s @ rest) (Num (int (0 + ?n))) (length ?pre2) 0
             = length ?pre2 + length s"
    by (rule string_end_exact)
  have sl2: "slice_js (?pre2 @ s @ rest) (length ?pre2) (length ?pre2 + length s) = s"
    by (rule slice_js_middle)
  have eq: "?pre2 @ s @ rest = ?d" by simp
  show ?thesis
    using ix sl pi se sl2 unfolding eq nts
    by (simp add: decodeString_def Let_def)
qed

lemma encode_first:
  "\<exists>c cs. encode lc v = c # cs \<and> (c = of_char CHR ''i'' \<or> c = of_char CHR ''l'' \<or> c = of_char CHR ''d'' \<or> is_digit c)"
proof (cases v)
  case (BString s)
  obtain c cs where dc: "digits10 (getUTF8ByteLength s) = c # cs"
    using digits10_ne [of "getUTF8ByteLength s"] by (cases "digits10 (getUTF8ByteLength s)") auto
  have "is_digit c" using hd_digits10 [of "getUTF8ByteLength s"] dc by simp
  then show ?thesis using BString dc by (simp add: number_to_string_def)
qed simp_all

lemma is_digit_not_tag:
  "is_digit c \<Longrightarrow> c \<noteq> of_char CHR ''i'' \<and> c \<noteq> of_char CHR ''l'' \<and> c \<noteq> of_char CHR ''d'' \<and> c \<noteq> of_char CHR ''e''"
  by (auto simp: is_digit_unat)

lemma encode_first_not_e:
  "\<exists>c cs. encode lc v = c # cs \<and> c \<noteq> of_char CHR ''e''"
  using encode_first [of lc v] is_digit_not_tag by auto

lemma length_encode_pos: "0 < length (encode lc v)"
  using encode_first [of lc v] by auto

lemma fuel_step: "2 * (a + b) + 1 < Suc n \<Longrightarrow> 0 < a \<Longrightarrow> 2 * b + 1 < (n::nat)"
  by arith

lemma fuel_entry_rest: "2 * (k + a + b) + 1 < Suc n \<Longrightarrow> 0 < a \<Longrightarrow> 2 * b + 1 < (n::nat)"
  by arith

lemma fuel_entry_value: "2 * (k + a + b) + 1 < Suc n \<Longrightarrow> 2 * a < (n::nat)"
  by arith

lemma decodeList_elems:
  assumes elem: "\<And>x fuel pre rest. x \<in> set xs \<Longrightarrow> 2 * length (encode lc x) < fuel \<Longrightarrow>
            decode_at fuel (pre @ encode lc x @ rest) (length pre)
              = Some (Inr (decoded lc x, length pre + length (encode lc x)))"
  shows "2 * length (concat (map (encode lc) xs)) + 1 < fuel \<Longrightarrow>
         decodeList fuel (pre @ concat (map (encode lc) xs) @ of_char CHR ''e'' # rest) (length pre) acc
           = Some (Inr (BList (acc @ map (decoded lc) xs),
                        length pre + length (concat (map (encode lc) xs)) + 1))"
  using elem
proof (induction xs arbitrary: fuel pre acc)
  case Nil
  then obtain n where n: "fuel = Suc n" by (cases fuel) auto
  show ?case unfolding n by simp
next
  case (Cons x xs)
  from Cons.prems(1) obtain n where n: "fuel = Suc n" by (cases fuel) auto
  obtain c cs where c: "encode lc x = c # cs" "c \<noteq> of_char CHR ''e''"
    using encode_first_not_e [of lc x] by auto
  let ?tail = "concat (map (encode lc) xs) @ of_char CHR ''e'' # rest"
  let ?d = "pre @ concat (map (encode lc) (x # xs)) @ of_char CHR ''e'' # rest"
  have d: "?d = pre @ encode lc x @ ?tail" by simp
  have ch: "charAt ?d (length pre) = Some c"
    unfolding d c by simp
  have lt: "length pre < length ?d" unfolding d c by simp
  have fx: "2 * length (encode lc x) < n" using Cons.prems(1) n by simp
  have dx: "decode_at n ?d (length pre) = Some (Inr (decoded lc x, length pre + length (encode lc x)))"
    unfolding d using fx by (intro Cons.prems(2)) simp_all
  have len: "length (concat (map (encode lc) (x # xs)))
               = length (encode lc x) + length (concat (map (encode lc) xs))" by simp
  have fr: "2 * length (concat (map (encode lc) xs)) + 1 < n"
    using Cons.prems(1) length_encode_pos [of lc x] unfolding n len by (rule fuel_step)
  have "decodeList n ((pre @ encode lc x) @ concat (map (encode lc) xs) @ of_char CHR ''e'' # rest)
          (length (pre @ encode lc x)) (acc @ [decoded lc x])
        = Some (Inr (BList ((acc @ [decoded lc x]) @ map (decoded lc) xs),
                 length (pre @ encode lc x) + length (concat (map (encode lc) xs)) + 1))"
    using fr Cons.prems(2) by (intro Cons.IH) simp_all
  then have rec: "decodeList n ?d (length pre + length (encode lc x)) (acc @ [decoded lc x])
        = Some (Inr (BList (acc @ map (decoded lc) (x # xs)),
                 length pre + length (concat (map (encode lc) (x # xs))) + 1))"
    by (simp add: add.assoc)
  show ?case
    unfolding n decodeList.simps ch using c(2) lt dx rec by simp
qed

lemma decodeString_encode:
  "decodeString (pre @ encode lc (BString k) @ rest) (length pre)
     = Inr (BString k, length pre + length (encode lc (BString k)))"
  using decodeString_ok [where pre = pre and s = k and rest = rest] by (simp add: add.assoc)

lemma decodeDictionary_entries:
  assumes elem: "\<And>e fuel pre rest. e \<in> set es \<Longrightarrow> 2 * length (encode lc (snd e)) < fuel \<Longrightarrow>
            decode_at fuel (pre @ encode lc (snd e) @ rest) (length pre)
              = Some (Inr (decoded lc (snd e), length pre + length (encode lc (snd e))))"
  shows "2 * length (concat (map (\<lambda>(k, v). encode lc (BString k) @ encode lc v) es)) + 1 < fuel \<Longrightarrow>
         decodeDictionary fuel
            (pre @ concat (map (\<lambda>(k, v). encode lc (BString k) @ encode lc v) es) @ of_char CHR ''e'' # rest)
            (length pre) acc
           = Some (Inr (BDict (foldl set_entry acc (map (map_prod id (decoded lc)) es)),
                        length pre + length (concat (map (\<lambda>(k, v). encode lc (BString k) @ encode lc v) es)) + 1))"
  using elem
proof (induction es arbitrary: fuel pre acc)
  case Nil
  then obtain n where n: "fuel = Suc n" by (cases fuel) auto
  show ?case unfolding n by simp
next
  case (Cons e es)
  obtain k v where e: "e = (k, v)" by (cases e)
  from Cons.prems(1) obtain n where n: "fuel = Suc n" by (cases fuel) auto
  let ?enc = "\<lambda>(k, v). encode lc (BString k) @ encode lc v"
  let ?ek = "encode lc (BString k)"
  let ?ev = "encode lc v"
  let ?rest = "concat (map ?enc es) @ of_char CHR ''e'' # rest"
  let ?d = "pre @ concat (map ?enc (e # es)) @ of_char CHR ''e'' # rest"
  have d: "?d = pre @ ?ek @ ?ev @ ?rest" by (simp add: e)
  obtain c cs where c: "?ek = c # cs" "c \<noteq> of_char CHR ''e''" "is_digit c"
  proof -
    obtain c cs where dc: "digits10 (getUTF8ByteLength k) = c # cs"
      using digits10_ne [of "getUTF8ByteLength k"] by (cases "digits10 (getUTF8ByteLength k)") auto
    have "is_digit c" using hd_digits10 [of "getUTF8ByteLength k"] dc by simp
    then show ?thesis using that [of c] dc is_digit_not_tag [of c]
      by (simp add: number_to_string_def)
  qed
  have ch: "charAt ?d (length pre) = Some c"
    unfolding d c by simp
  have lt: "length pre < length ?d" unfolding d c by simp
  have len: "length (concat (map ?enc (e # es))) = length ?ek + length ?ev + length (concat (map ?enc es))"
    by (simp add: e)
  have n1: "0 < n" using Cons.prems(1) n by simp
  then obtain m where m: "n = Suc m" by (cases n) auto
  have ds: "decodeString ?d (length pre) = Inr (BString k, length pre + length ?ek)"
    unfolding d by (rule decodeString_encode)
  have dk: "decode_at n ?d (length pre) = Some (Inr (BString k, length pre + length ?ek))"
    unfolding m decode_at.simps ch ds using c(3) is_digit_not_tag [of c] by simp
  have fv: "2 * length ?ev < n" using Cons.prems(1) unfolding n len by (rule fuel_entry_value)
  have "decode_at n ((pre @ ?ek) @ encode lc (snd e) @ ?rest) (length (pre @ ?ek))
          = Some (Inr (decoded lc (snd e), length (pre @ ?ek) + length (encode lc (snd e))))"
    using fv by (intro Cons.prems(2)) (simp_all add: e)
  then have dv: "decode_at n ?d (length pre + length ?ek)
          = Some (Inr (decoded lc v, length pre + length ?ek + length ?ev))"
    unfolding d by (simp add: e)
  have fr: "2 * length (concat (map ?enc es)) + 1 < n"
    using Cons.prems(1) length_encode_pos [of lc v] unfolding n len by (rule fuel_entry_rest)
  have "decodeDictionary n ((pre @ ?ek @ ?ev) @ concat (map ?enc es) @ of_char CHR ''e'' # rest)
          (length (pre @ ?ek @ ?ev)) (obj_set acc k (decoded lc v))
        = Some (Inr (BDict (foldl set_entry (obj_set acc k (decoded lc v))
                              (map (map_prod id (decoded lc)) es)),
                 length (pre @ ?ek @ ?ev) + length (concat (map ?enc es)) + 1))"
    using fr Cons.prems(2) by (intro Cons.IH) simp_all
  then have rec: "decodeDictionary n ?d (length pre + length ?ek + length ?ev) (obj_set acc k (decoded lc v))
        = Some (Inr (BDict (foldl set_entry acc (map (map_prod id (decoded lc)) (e # es))),
                 length pre + length (concat (map ?enc (e # es))) + 1))"
    unfolding d len by (simp add: e add.assoc set_entry_def)
  have ne: "(Some c \<noteq> Some (of_char CHR ''e'')) = True" using c(2) by simp
  have nlt: "(length pre \<ge> length ?d) = False" using lt by simp
  show ?case
    unfolding n decodeDictionary.simps
    by (simp only: ch ne nlt dk dv rec if_True if_False option.case sum.case prod.case
          bvalue.case)
qed

lemma set_insert_entry: "set (insert_entry lc e xs) = insert e (set xs)"
  by (induction xs) auto

lemma set_sort_entries: "set (sort_entries lc es) = set es"
  by (induction es) (simp_all add: sort_entries_def set_insert_entry)

lemma distinct_insert_entry:
  "distinct (map fst (insert_entry lc e xs)) \<longleftrightarrow> fst e \<notin> fst ` set xs \<and> distinct (map fst xs)"
  by (induction xs) (auto simp: set_insert_entry)

lemma distinct_sort_entries: "distinct (map fst (sort_entries lc es)) = distinct (map fst es)"
proof (induction es)
  case Nil
  show ?case by (simp add: sort_entries_def)
next
  case (Cons e es)
  have "sort_entries lc (e # es) = insert_entry lc e (sort_entries lc es)"
    by (simp add: sort_entries_def)
  then show ?case
    using Cons.IH by (simp add: distinct_insert_entry set_sort_entries)
qed

lemma insert_entry_map:
  assumes "\<And>x. fst (g x) = fst x"
  shows "insert_entry lc (g e) (map g xs) = map g (insert_entry lc e xs)"
  by (induction xs) (simp_all add: assms)

lemma sort_entries_map_gen:
  assumes "\<And>x. fst (g x) = fst x"
  shows "sort_entries lc (map g es) = map g (sort_entries lc es)"
proof (induction es)
  case Nil
  show ?case by (simp add: sort_entries_def)
next
  case (Cons e es)
  have "sort_entries lc (map g (e # es)) = insert_entry lc (g e) (sort_entries lc (map g es))"
    by (simp add: sort_entries_def)
  also have "\<dots> = insert_entry lc (g e) (map g (sort_entries lc es))"
    by (simp only: Cons.IH)
  also have "\<dots> = map g (insert_entry lc e (sort_entries lc es))"
    using assms by (rule insert_entry_map)
  finally show ?case by (simp add: sort_entries_def)
qed

lemma sort_entries_map:
  "sort_entries lc (map (map_prod id f) es) = map (map_prod id f) (sort_entries lc es)"
  by (rule sort_entries_map_gen) simp

lemma fuel_list: "2 * Suc (Suc a) < Suc n \<Longrightarrow> 2 * a + 1 < (n::nat)"
  by arith

lemma roundtrip_at:
  "wf_value v \<Longrightarrow> 2 * length (encode lc v) < fuel \<Longrightarrow>
   decode_at fuel (pre @ encode lc v @ rest) (length pre)
     = Some (Inr (decoded lc v, length pre + length (encode lc v)))"
proof (induction v arbitrary: fuel pre rest)
  case (BString s)
  then obtain n where n: "fuel = Suc n" by (cases fuel) auto
  obtain c cs where c: "encode lc (BString s) = c # cs" "is_digit c"
  proof -
    obtain c cs where dc: "digits10 (getUTF8ByteLength s) = c # cs"
      using digits10_ne [of "getUTF8ByteLength s"] by (cases "digits10 (getUTF8ByteLength s)") auto
    have "is_digit c" using hd_digits10 [of "getUTF8ByteLength s"] dc by simp
    then show ?thesis using that [of c] dc by (simp add: number_to_string_def)
  qed
  have ch: "charAt (pre @ encode lc (BString s) @ rest) (length pre) = Some c"
    unfolding c by simp
  show ?case
    unfolding n decode_at.simps ch decodeString_encode
    using c(2) is_digit_not_tag [of c] by simp
next
  case (BNumber x)
  then obtain k where k: "x = Num k" by (cases x) auto
  from BNumber obtain n where n: "fuel = Suc n" by (cases fuel) auto
  let ?s = "number_to_string (Num k)"
  have di: "decodeInteger (pre @ of_char CHR ''i'' # ?s @ of_char CHR ''e'' # rest) (length pre)
            = Inr (BNumber (parseInt ?s), length pre + length ?s + 2)"
    using number_to_string_no_e by (rule decodeInteger_ok)
  have pi: "parseInt ?s = Num k"
    using parseInt_number_to_string [of "[]" k] by simp
  show ?case
    unfolding n k using di pi by simp
next
  case (BList xs)
  from BList.prems obtain n where n: "fuel = Suc n" by (cases fuel) auto
  let ?body = "concat (map (encode lc) xs)"
  let ?p = "pre @ [of_char CHR ''l'']"
  have f: "2 * length ?body + 1 < n"
    using BList.prems(2) unfolding n by (intro fuel_list) simp
  have "decodeList n (?p @ ?body @ of_char CHR ''e'' # rest) (length ?p) []
          = Some (Inr (BList ([] @ map (decoded lc) xs), length ?p + length ?body + 1))"
    using BList.IH BList.prems(1) by (intro decodeList_elems f) simp_all
  then show ?case
    unfolding n by simp
next
  case (BDict es)
  from BDict.prems obtain n where n: "fuel = Suc n" by (cases fuel) auto
  let ?ses = "sort_entries lc es"
  let ?enc = "\<lambda>(k, v). encode lc (BString k) @ encode lc v"
  let ?body = "concat (map ?enc ?ses)"
  let ?p = "pre @ [of_char CHR ''d'']"
  have f: "2 * length ?body + 1 < n"
    using BDict.prems(2) unfolding n by (intro fuel_list) simp
  have elem: "decode_at fuel (pre @ encode lc (snd e) @ rest) (length pre)
          = Some (Inr (decoded lc (snd e), length pre + length (encode lc (snd e))))"
    if "e \<in> set ?ses" "2 * length (encode lc (snd e)) < fuel" for e fuel pre rest
  proof -
    from that(1) have m: "e \<in> set es" by (simp add: set_sort_entries)
    then have "wf_value (snd e)" using BDict.prems(1) by simp
    moreover have "snd e \<in> Basic_BNFs.snds e" by (cases e) simp
    ultimately show ?thesis using that(2) m by (intro BDict.IH)
  qed
  have "decodeDictionary n (?p @ ?body @ of_char CHR ''e'' # rest) (length ?p) []
          = Some (Inr (BDict (foldl set_entry [] (map (map_prod id (decoded lc)) ?ses)),
                       length ?p + length ?body + 1))"
    using elem by (intro decodeDictionary_entries f) simp_all
  then show ?case
    unfolding n by (simp add: sort_entries_map)
qed

lemma fmap_of_list_sort_entries:
  assumes "distinct (map fst es)"
  shows "fmap_of_list (sort_entries lc es) = fmap_of_list es"
proof (rule fmap_ext)
  fix k
  have "map_of (sort_entries lc es) = map_of es"
    using assms by (simp add: map_of_inject_set distinct_sort_entries set_sort_entries)
  then show "fmlookup (fmap_of_list (sort_entries lc es)) k = fmlookup (fmap_of_list es) k"
    by (simp add: fmlookup_of_list)
qed

lemma obj_put_fresh: "k \<notin> fst ` set es \<Longrightarrow> obj_put es k v = es @ [(k, v)]"
  by (induction es) auto

lemma set_entry_fresh:
  "fst e \<noteq> js ''__proto__'' \<Longrightarrow> fst e \<notin> fst ` set es \<Longrightarrow> set_entry es e = es @ [e]"
  by (simp add: set_entry_def obj_set_def obj_put_fresh)

lemma foldl_set_entry_fresh:
  "distinct (map fst (acc @ es)) \<Longrightarrow> js ''__proto__'' \<notin> fst ` set es \<Longrightarrow>
   foldl set_entry acc es = acc @ es"
proof (induction es arbitrary: acc)
  case Nil
  show ?case by simp
next
  case (Cons e es)
  have "set_entry acc e = acc @ [e]"
    using Cons.prems by (intro set_entry_fresh) auto
  moreover have "foldl set_entry (acc @ [e]) es = (acc @ [e]) @ es"
    using Cons.prems by (intro Cons.IH) auto
  ultimately show ?case by simp
qed

lemma decoded_plain_dict:
  assumes "distinct (map fst es)" and "js ''__proto__'' \<notin> fst ` set es"
  shows "decoded lc (BDict es) = BDict (sort_entries lc (map (map_prod id (decoded lc)) es))"
proof -
  let ?L = "sort_entries lc (map (map_prod id (decoded lc)) es)"
  have k: "map fst (map (map_prod id (decoded lc)) es) = map fst es" by (simp add: comp_def)
  have "distinct (map fst ?L)"
    using assms(1) by (simp only: distinct_sort_entries k)
  moreover have "fst ` set ?L = fst ` set es"
    by (simp add: set_sort_entries image_image)
  ultimately have "foldl set_entry [] ?L = [] @ ?L"
    using assms(2) by (intro foldl_set_entry_fresh) simp_all
  then show ?thesis by simp
qed

lemma denote_decoded: "wf_value v \<Longrightarrow> plain_keys v \<Longrightarrow> denote (decoded lc v) = denote v"
proof (induction v)
  case (BList xs)
  then show ?case by simp
next
  case (BDict es)
  have el: "map_prod id denote (map_prod id (decoded lc) e) = map_prod id denote e"
    if "e \<in> set es" for e
  proof -
    obtain k v where e: "e = (k, v)" by (cases e)
    have "wf_value v" "plain_keys v" using BDict.prems that e by auto
    moreover have "v \<in> Basic_BNFs.snds e" by (simp add: e)
    ultimately have "denote (decoded lc v) = denote v" using that by (intro BDict.IH)
    then show ?thesis by (simp add: e)
  qed
  have dd: "decoded lc (BDict es) = BDict (sort_entries lc (map (map_prod id (decoded lc)) es))"
    using BDict.prems by (intro decoded_plain_dict) simp_all
  have "map (map_prod id denote) (sort_entries lc (map (map_prod id (decoded lc)) es))
        = sort_entries lc (map (map_prod id denote) (map (map_prod id (decoded lc)) es))"
    by (simp only: sort_entries_map)
  also have "map (map_prod id denote) (map (map_prod id (decoded lc)) es)
        = map (map_prod id denote) es"
    using el by (simp del: map_prod_simp)
  finally have "map (map_prod id denote) (sort_entries lc (map (map_prod id (decoded lc)) es))
        = sort_entries lc (map (map_prod id denote) es)" .
  moreover have "distinct (map fst (map (map_prod id denote) es))"
    using BDict.prems by (simp add: comp_def)
  ultimately show ?case
    unfolding dd by (simp add: fmap_of_list_sort_entries)
qed simp_all

lemma decode_encode_exact:
  assumes "wf_value v"
  shows "decode (encode lc v @ rest) = Some (Inr (decoded lc v, length (encode lc v)))"
proof -
  have "2 * length (encode lc v) < 2 * length (encode lc v @ rest) + 1" by simp
  from roundtrip_at [OF assms this, of "[]" rest]
  show ?thesis by (simp add: decode_def)
qed

subsection \<open>Evaluation on concrete texts\<close>

lemma decode_at_numeral:
  "decode_at (numeral k) d pos =
     (case charAt d pos of
        None \<Rightarrow> Some (Inl (InvalidData pos))
      | Some c \<Rightarrow>
          if c = of_char CHR ''i'' then Some (decodeInteger d pos)
          else if c = of_char CHR ''l'' then decodeList (pred_numeral k) d (pos + 1) []
          else if c = of_char CHR ''d'' then decodeDictionary (pred_numeral k) d (pos + 1) []
          else if is_digit c then Some (decodeString d pos)
          else Some (Inl (InvalidData pos)))"
  unfolding numeral_eq_Suc decode_at.simps ..

lemma decodeList_numeral:
  "decodeList (numeral k) d pos result =
     (if charAt d pos \<noteq> Some (of_char CHR ''e'')
      then (if pos \<ge> length d then Some (Inl UnterminatedList)
            else case decode_at (pred_numeral k) d pos of
                   None \<Rightarrow> None
                 | Some (Inl err) \<Rightarrow> Some (Inl err)
                 | Some (Inr (v, pos')) \<Rightarrow> decodeList (pred_numeral k) d pos' (result @ [v]))
      else Some (Inr (BList result, pos + 1)))"
  unfolding numeral_eq_Suc decodeList.simps ..

lemma decodeDictionary_numeral:
  "decodeDictionary (numeral k) d pos result =
     (if charAt d pos \<noteq> Some (of_char CHR ''e'')
      then (if pos \<ge> length d then Some (Inl UnterminatedDictionary)
            else case decode_at (pred_numeral k) d pos of
                   None \<Rightarrow> None
                 | Some (Inl err) \<Rightarrow> Some (Inl err)
                 | Some (Inr (BString key, pos')) \<Rightarrow>
                     (case decode_at (pred_numeral k) d pos' of
                        None \<Rightarrow> None
                      | Some (Inl err) \<Rightarrow> Some (Inl err)
                      | Some (Inr (v, pos'')) \<Rightarrow>
                          decodeDictionary (pred_numeral k) d pos'' (obj_set result key v))
                 | Some (Inr (_, pos')) \<Rightarrow> Some (Inl KeyMustBeString))
      else Some (Inr (BDict result, pos + 1)))"
  unfolding numeral_eq_Suc decodeDictionary.simps ..

lemmas codec_eval =
  decode_def js_def decode_at_numeral decodeList_numeral decodeDictionary_numeral
  decodeInteger_def decodeString_def indexOf_def
  is_digit_def is_white_def charAt_def parseInt_def slice_js_def digits_value_def
  string_end.simps scan_integer.simps less_num_def unit_bytes_def number_to_string_def
  digits10.simps digit_char_def sort_entries_def Let_def

subsection \<open>The decoder always returns\<close>

lemma decodeInteger_progress:
  "decodeInteger d pos = Inr (v, p) \<Longrightarrow> pos < p \<and> p \<le> length d"
  by (auto simp: decodeInteger_def Let_def split: sum.splits dest!: scan_integer_result)

lemma progress_error [simp]: "progress d pos (Some (Inl e))"
  by (simp add: progress_def)

lemma progress_value [simp]: "progress d pos (Some (Inr (v, p))) \<longleftrightarrow> pos < p \<and> p \<le> length d"
  by (simp add: progress_def)

lemma progress_mono: "progress d pos' r \<Longrightarrow> pos \<le> pos' \<Longrightarrow> progress d pos r"
  by (auto simp: progress_def)

lemma progress_cases:
  assumes "progress d pos r"
  obtains e where "r = Some (Inl e)" | v p where "r = Some (Inr (v, p))" "pos < p" "p \<le> length d"
proof -
  from assms obtain x where x: "r = Some x"
    and b: "\<And>v p. x = Inr (v, p) \<Longrightarrow> pos < p \<and> p \<le> length d"
    by (auto simp: progress_def)
  show thesis
  proof (cases x)
    case (Inl e)
    with x that(1) show thesis by simp
  next
    case (Inr vp)
    obtain v p where vp: "vp = (v, p)" by (cases vp)
    with Inr x b [of v p] that(2) [of v p] show thesis by simp
  qed
qed

lemma decode_fuel_enough:
  "(\<forall>d pos. 2 * (length d - pos) + 1 \<le> n \<longrightarrow> progress d pos (decode_at n d pos))
   \<and> (\<forall>d pos acc. 2 * (length d - pos) + 2 \<le> n \<longrightarrow> progress d pos (decodeList n d pos acc))
   \<and> (\<forall>d pos acc. 2 * (length d - pos) + 2 \<le> n \<longrightarrow> progress d pos (decodeDictionary n d pos acc))"
proof (induction n)
  case 0
  show ?case by simp
next
  case (Suc n)
  then have ih_dec: "\<And>d pos. 2 * (length d - pos) + 1 \<le> n \<Longrightarrow> progress d pos (decode_at n d pos)"
    and ih_list: "\<And>d pos acc. 2 * (length d - pos) + 2 \<le> n \<Longrightarrow> progress d pos (decodeList n d pos acc)"
    and ih_dict: "\<And>d pos acc. 2 * (length d - pos) + 2 \<le> n \<Longrightarrow> progress d pos (decodeDictionary n d pos acc)"
    by blast+
  have dec: "progress d pos (decode_at (Suc n) d pos)" if f: "2 * (length d - pos) + 1 \<le> Suc n" for d pos
  proof (cases "charAt d pos")
    case None
    then show ?thesis by simp
  next
    case (Some c)
    then have lt: "pos < length d" by (simp add: charAt_def split: if_splits)
    have f': "2 * (length d - (pos + 1)) + 2 \<le> n" using f lt by arith
    have int: "progress d pos (Some (decodeInteger d pos))"
      by (cases "decodeInteger d pos") (auto dest: decodeInteger_progress)
    have str: "progress d pos (Some (decodeString d pos))"
      by (cases "decodeString d pos") (auto dest: decodeString_progress)
    have lst: "progress d pos (decodeList n d (pos + 1) [])"
      using ih_list [OF f'] by (rule progress_mono) simp
    have dct: "progress d pos (decodeDictionary n d (pos + 1) [])"
      using ih_dict [OF f'] by (rule progress_mono) simp
    show ?thesis using Some int str lst dct by simp
  qed
  have lst: "progress d pos (decodeList (Suc n) d pos acc)" if f: "2 * (length d - pos) + 2 \<le> Suc n" for d pos acc
  proof (cases "charAt d pos = Some (of_char CHR ''e'')")
    case True
    then have "pos < length d" by (simp add: charAt_def split: if_splits)
    with True show ?thesis by simp
  next
    case False
    show ?thesis
    proof (cases "pos \<ge> length d")
      case True
      with False show ?thesis by simp
    next
      case nend: False
      have "2 * (length d - pos) + 1 \<le> n" using f by arith
      from ih_dec [OF this] show ?thesis
      proof (cases rule: progress_cases)
        case (1 e)
        with False nend show ?thesis by simp
      next
        case (2 v p)
        have "2 * (length d - p) + 2 \<le> n" using f 2(2,3) by arith
        from ih_list [OF this] have "progress d pos (decodeList n d p (acc @ [v]))"
          by (rule progress_mono) (use 2(2) in simp)
        with False nend 2(1) show ?thesis by simp
      qed
    qed
  qed
  have dct: "progress d pos (decodeDictionary (Suc n) d pos acc)" if f: "2 * (length d - pos) + 2 \<le> Suc n" for d pos acc
  proof (cases "charAt d pos = Some (of_char CHR ''e'')")
    case True
    then have "pos < length d" by (simp add: charAt_def split: if_splits)
    with True show ?thesis by simp
  next
    case False
    show ?thesis
    proof (cases "pos \<ge> length d")
      case True
      with False show ?thesis by simp
    next
      case nend: False
      have "2 * (length d - pos) + 1 \<le> n" using f by arith
      from ih_dec [OF this] show ?thesis
      proof (cases rule: progress_cases)
        case (1 e)
        with False nend show ?thesis by simp
      next
        case (2 k p)
        show ?thesis
        proof (cases k)
          case (BString key)
          have "2 * (length d - p) + 1 \<le> n" using f 2(2,3) by arith
          from ih_dec [OF this] show ?thesis
          proof (cases rule: progress_cases)
            case (1 e)
            with False nend 2(1) BString show ?thesis by simp
          next
            case v: (2 v q)
            have "2 * (length d - q) + 2 \<le> n" using f 2(2,3) v(2,3) by arith
            from ih_dict [OF this]
            have "progress d pos (decodeDictionary n d q (obj_set acc key v))"
              by (rule progress_mono) (use 2(2) v(2) in simp)
            with False nend 2(1) BString v(1) show ?thesis by simp
          qed
        qed (use False nend 2(1) in simp_all)
      qed
    qed
  qed
  from dec lst dct show ?case by blast
qed

lemma decode_total: "\<exists>r. decode d = Some r"
proof -
  have "2 * (length d - 0) + 1 \<le> 2 * length d + 1" by simp
  with decode_fuel_enough [of "2 * length d + 1"]
  have "progress d 0 (decode d)" unfolding decode_def by blast
  then show ?thesis by (auto simp: progress_def)
qed

lemma decode_consumed:
  "decode d = Some (Inr (v, n)) \<Longrightarrow> 0 < n \<and> n \<le> length d"
proof -
  have "2 * (length d - 0) + 1 \<le> 2 * length d + 1" by simp
  with decode_fuel_enough [of "2 * length d + 1"]
  have "progress d 0 (decode d)" unfolding decode_def by blast
  then show "decode d = Some (Inr (v, n)) \<Longrightarrow> 0 < n \<and> n \<le> length d"
    by (auto simp: progress_def)
qed

subsection \<open>Sorting of entries\<close>

lemma sorted_insert_entry:
  assumes c: "consistent_on lc K" and e: "fst e \<in> K" and xs: "fst ` set xs \<subseteq> K"
    and s: "sorted_wrt (key_le lc) xs"
  shows "sorted_wrt (key_le lc) (insert_entry lc e xs)"
  using xs s
proof (induction xs)
  case Nil
  show ?case by simp
next
  case (Cons x xs)
  have xK: "fst x \<in> K" using Cons.prems(1) by simp
  show ?case
  proof (cases "lc (fst e) (fst x) \<le> 0")
    case True
    have "key_le lc e y" if "y \<in> set xs" for y
    proof -
      have "fst y \<in> K" using Cons.prems(1) that by auto
      moreover have "lc (fst x) (fst y) \<le> 0" using Cons.prems(2) that by (auto simp: key_le_def)
      ultimately show ?thesis using c e xK True unfolding consistent_on_def key_le_def by blast
    qed
    with True Cons.prems(2) show ?thesis by (auto simp: key_le_def)
  next
    case False
    then have xe: "key_le lc x e"
      using c e xK unfolding consistent_on_def key_le_def by blast
    have "sorted_wrt (key_le lc) (insert_entry lc e xs)"
      using Cons.prems by (intro Cons.IH) auto
    with False xe Cons.prems(2) show ?thesis by (auto simp: set_insert_entry)
  qed
qed

lemma sorted_sort_entries:
  assumes "consistent_on lc K" "fst ` set es \<subseteq> K"
  shows "sorted_wrt (key_le lc) (sort_entries lc es)"
  using assms(2)
proof (induction es)
  case Nil
  show ?case by (simp add: sort_entries_def)
next
  case (Cons e es)
  have "sorted_wrt (key_le lc) (insert_entry lc e (sort_entries lc es))"
    using assms(1) Cons by (intro sorted_insert_entry [where K = K]) (auto simp: set_sort_entries)
  then show ?case by (simp add: sort_entries_def)
qed

lemma sorted_wrt_unique:
  assumes "sorted_wrt R xs" "sorted_wrt R ys" "distinct xs" "distinct ys" "set xs = set ys"
    and anti: "\<And>a b. a \<in> set xs \<Longrightarrow> b \<in> set xs \<Longrightarrow> R a b \<Longrightarrow> R b a \<Longrightarrow> a = b"
  shows "xs = ys"
  using assms
proof (induction xs arbitrary: ys)
  case Nil
  then show ?case by simp
next
  case (Cons x xs)
  from Cons.prems(5) obtain y ys' where ys: "ys = y # ys'" by (cases ys) auto
  have xy: "x = y"
  proof (rule ccontr)
    assume ne: "x \<noteq> y"
    then have "x \<in> set ys'" "y \<in> set xs" using Cons.prems(5) ys by auto
    then have "R y x" "R x y" using Cons.prems(1,2) ys by auto
    moreover have "y \<in> set (x # xs)" using Cons.prems(5) ys by simp
    ultimately show False using ne Cons.prems(6) [of x y] by simp
  qed
  have "set xs = set ys'" using Cons.prems(3,4,5) ys xy by auto
  then have "xs = ys'"
    using Cons.prems ys by (intro Cons.IH) auto
  with xy ys show ?case by simp
qed

lemma distinct_entries: "distinct (map fst es) \<Longrightarrow> distinct es"
  by (simp add: distinct_map)

lemma sort_entries_order_free:
  assumes c: "consistent_on lc (fst ` set ps)"
    and dp: "distinct (map fst ps)" and dq: "distinct (map fst qs)" and eq: "set ps = set qs"
  shows "sort_entries lc ps = sort_entries lc qs"
proof (rule sorted_wrt_unique [where R = "key_le lc"])
  show "sorted_wrt (key_le lc) (sort_entries lc ps)"
    using c by (rule sorted_sort_entries) simp
  show "sorted_wrt (key_le lc) (sort_entries lc qs)"
    using c by (rule sorted_sort_entries) (simp add: eq)
  show "distinct (sort_entries lc ps)"
    using dp by (intro distinct_entries) (simp add: distinct_sort_entries)
  show "distinct (sort_entries lc qs)"
    using dq by (intro distinct_entries) (simp add: distinct_sort_entries)
  show "set (sort_entries lc ps) = set (sort_entries lc qs)"
    by (simp add: set_sort_entries eq)
next
  fix a b
  assume a: "a \<in> set (sort_entries lc ps)" and b: "b \<in> set (sort_entries lc ps)"
    and "key_le lc a b" "key_le lc b a"
  then have le: "lc (fst a) (fst b) \<le> 0" "lc (fst b) (fst a) \<le> 0"
    by (simp_all add: key_le_def)
  have ma: "a \<in> set ps" and mb: "b \<in> set ps" using a b by (simp_all add: set_sort_entries)
  have anti: "\<And>x y. x \<in> fst ` set ps \<Longrightarrow> y \<in> fst ` set ps \<Longrightarrow> lc x y \<le> 0 \<Longrightarrow> lc y x \<le> 0 \<Longrightarrow> x = y"
    using c unfolding consistent_on_def by blast
  have k: "fst a = fst b"
    using ma mb le by (intro anti) simp_all
  obtain ka va where pa: "a = (ka, va)" by (cases a)
  obtain kb vb where pb: "b = (kb, vb)" by (cases b)
  have "va = vb"
    using dp ma mb k unfolding pa pb by (intro eq_key_imp_eq_value [of ps ka va vb]) simp_all
  with k pa pb show "a = b" by simp
qed

lemma length_insert_entry: "length (insert_entry lc e xs) = Suc (length xs)"
  by (induction xs) simp_all

lemma length_sort_entries: "length (sort_entries lc es) = length es"
  by (induction es) (simp_all add: sort_entries_def length_insert_entry)

subsection \<open>Byte lengths\<close>

lemma unit_bytes_bmp:
  "unit_bytes c = (if unat c < 128 then 1 else if unat c < 2048 then 2 else 3)"
proof -
  have "unat c < 65536" using unsigned_less [of c, where 'a = nat] by simp
  then show ?thesis by (simp add: unit_bytes_def)
qed

lemma getUTF8ByteLength_bmp:
  "\<not> list_ex is_high_surrogate s \<Longrightarrow> getUTF8ByteLength s = utf8_byte_count s"
proof (induction s rule: utf8_byte_count.induct)
  case 1
  show ?case by simp
next
  case (2 c)
  show ?case by (simp add: unit_bytes_bmp)
next
  case (3 c c' cs)
  have nh: "\<not> (0xD800 \<le> c \<and> c \<le> 0xDBFF \<and> 0xDC00 \<le> c' \<and> c' \<le> 0xDFFF)"
    using "3.prems" by (auto simp: is_high_surrogate_def)
  have ih: "getUTF8ByteLength (c' # cs) = utf8_byte_count (c' # cs)"
    using nh "3.prems" by (intro "3.IH"(2)) simp_all
  have "getUTF8ByteLength (c # c' # cs) = unit_bytes c + getUTF8ByteLength (c' # cs)"
    by simp
  also have "\<dots> = (if unat c < 128 then 1 else if unat c < 2048 then 2 else 3)
                     + utf8_byte_count (c' # cs)"
    by (simp only: ih unit_bytes_bmp)
  also have "\<dots> = utf8_byte_count (c # c' # cs)"
    using nh by (simp only: utf8_byte_count.simps if_False)
  finally show ?case .
qed

subsection \<open>Decoding a proper prefix of an encoding\<close>

lemma getUTF8ByteLength_append:
  "getUTF8ByteLength (a @ b) = getUTF8ByteLength a + getUTF8ByteLength b"
  by (induction a) simp_all

lemma getUTF8ByteLength_take:
  assumes "k < length s"
  shows "getUTF8ByteLength (take k s) < getUTF8ByteLength s"
proof -
  from assms obtain x xs where d: "drop k s = x # xs"
    by (cases "drop k s") simp_all
  have "getUTF8ByteLength s = getUTF8ByteLength (take k s) + getUTF8ByteLength (drop k s)"
    using getUTF8ByteLength_append [of "take k s" "drop k s"] by simp
  then show ?thesis using unit_bytes_pos [of x] by (simp add: d)
qed

lemma string_end_short:
  "int (c + getUTF8ByteLength t) < N \<Longrightarrow>
   string_end (pre @ t) (Num N) (length pre) c = length pre + length t"
proof (induction t arbitrary: pre c)
  case Nil
  show ?case by (subst string_end.simps) simp
next
  case (Cons x t)
  have ih: "string_end ((pre @ [x]) @ t) (Num N) (length (pre @ [x])) (c + unit_bytes x)
              = length (pre @ [x]) + length t"
    using Cons.prems by (intro Cons.IH) (simp add: add.assoc)
  have cond: "less_num c (Num N)" using Cons.prems by (simp add: less_num_def)
  show ?case
    using cond ih by (subst string_end.simps) simp
qed

lemma index_from_none: "c \<notin> set xs \<Longrightarrow> index_from c xs i = None"
  by (induction xs arbitrary: i) auto

lemma decodeString_no_colon:
  "of_char CHR '':'' \<notin> set (drop pos d) \<Longrightarrow> decodeString d pos = Inl InvalidStringFormat"
  by (simp add: decodeString_def indexOf_def index_from_none)

lemma decodeString_cut:
  assumes "k < length s"
  shows "decodeString (pre @ number_to_string (Num (int (getUTF8ByteLength s))) @ of_char CHR '':'' # take k s)
           (length pre)
         = Inr (BString (take k s),
                length (pre @ number_to_string (Num (int (getUTF8ByteLength s))) @ of_char CHR '':'' # take k s))"
proof -
  let ?n = "getUTF8ByteLength s"
  let ?ds = "digits10 ?n"
  let ?t = "take k s"
  let ?d = "pre @ ?ds @ of_char CHR '':'' # ?t @ []"
  have nts: "number_to_string (Num (int ?n)) = ?ds"
    by (simp add: number_to_string_def)
  have ix: "indexOf (of_char CHR '':'') ?d (length pre) = Some (length pre + length ?ds)"
    using digits10_no_colon by (rule indexOf_found)
  have sl: "slice_js ?d (length pre) (length pre + length ?ds) = ?ds"
    by (rule slice_js_middle)
  have pi: "parseInt ?ds = Num (int ?n)"
    using parseInt_digits10 [of "[]" ?n] by simp
  let ?pre2 = "pre @ ?ds @ [of_char CHR '':'']"
  have "int (0 + getUTF8ByteLength ?t) < int ?n"
    using getUTF8ByteLength_take [OF assms] by simp
  then have se: "string_end (?pre2 @ ?t) (Num (int ?n)) (length ?pre2) 0 = length ?pre2 + length ?t"
    by (rule string_end_short)
  have sl2: "slice_js (?pre2 @ ?t @ []) (length ?pre2) (length ?pre2 + length ?t) = ?t"
    by (rule slice_js_middle)
  have eq: "?pre2 @ ?t = ?d" by simp
  show ?thesis
    using ix sl pi se sl2 unfolding eq nts
    by (simp add: decodeString_def Let_def)
qed

lemma decode_at_end:
  "length d \<le> pos \<Longrightarrow> decode_at (Suc n) d pos = Some (Inl (InvalidData pos))"
  "length d \<le> pos \<Longrightarrow> decodeList (Suc n) d pos acc = Some (Inl UnterminatedList)"
  "length d \<le> pos \<Longrightarrow> decodeDictionary (Suc n) d pos es = Some (Inl UnterminatedDictionary)"
  by (simp_all add: charAt_def)

lemma encode_string_first:
  "\<exists>c cs. encode lc (BString s) = c # cs \<and> is_digit c"
proof -
  obtain c cs where dc: "digits10 (getUTF8ByteLength s) = c # cs"
    using digits10_ne [of "getUTF8ByteLength s"] by (cases "digits10 (getUTF8ByteLength s)") auto
  have "is_digit c" using hd_digits10 [of "getUTF8ByteLength s"] dc by simp
  then show ?thesis using dc by (simp add: number_to_string_def)
qed

lemma cut_short_string:
  assumes "k < length (encode lc (BString s))"
  shows "cut_short (pre @ take k (encode lc (BString s)))
           (decode_at (Suc n) (pre @ take k (encode lc (BString s))) (length pre))"
proof -
  let ?ds = "number_to_string (Num (int (getUTF8ByteLength s)))"
  let ?d = "pre @ take k (encode lc (BString s))"
  have nts: "?ds = digits10 (getUTF8ByteLength s)" by (simp add: number_to_string_def)
  show ?thesis
  proof (cases "k = 0")
    case True
    then show ?thesis by (simp add: cut_short_def fails_def decode_at_end)
  next
    case False
    obtain c cs where dc: "?ds = c # cs" and c: "is_digit c"
      using digits10_ne [of "getUTF8ByteLength s"] hd_digits10 [of "getUTF8ByteLength s"]
      unfolding nts by (cases "digits10 (getUTF8ByteLength s)") auto
    have tk: "take k (encode lc (BString s)) = c # take (k - 1) (cs @ of_char CHR '':'' # s)"
      using False by (cases k) (simp_all add: dc)
    have ch: "charAt ?d (length pre) = Some c" unfolding tk by simp
    have dec: "decode_at (Suc n) ?d (length pre) = Some (decodeString ?d (length pre))"
      unfolding decode_at.simps ch using c is_digit_not_tag [of c] by simp
    show ?thesis
    proof (cases "k \<le> length ?ds")
      case True
      then have "take k (encode lc (BString s)) = take k ?ds" by simp
      then have "set (drop (length pre) ?d) \<subseteq> set ?ds"
        by (simp add: set_take_subset)
      then have "of_char CHR '':'' \<notin> set (drop (length pre) ?d)"
        using digits10_no_colon [of "getUTF8ByteLength s"] unfolding nts by blast
      then have "decodeString ?d (length pre) = Inl InvalidStringFormat"
        by (rule decodeString_no_colon)
      with dec show ?thesis by (simp add: cut_short_def fails_def)
    next
      case gt: False
      define j where "j = k - length ?ds - 1"
      have j: "j < length s" using assms gt by (simp add: j_def)
      have tk2: "take k (encode lc (BString s)) = ?ds @ of_char CHR '':'' # take j s"
        using gt by (simp add: j_def not_le take_Cons')
      have "decodeString ?d (length pre) = Inr (BString (take j s), length ?d)"
        unfolding tk2 using j by (rule decodeString_cut)
      with dec show ?thesis by (simp add: cut_short_def)
    qed
  qed
qed

lemma fails_number:
  assumes "k < length (encode lc (BNumber (Num x)))"
  shows "fails (decode_at (Suc n) (pre @ take k (encode lc (BNumber (Num x)))) (length pre))"
proof (cases "k = 0")
  case True
  then show ?thesis by (simp add: fails_def decode_at_end)
next
  case False
  let ?ds = "number_to_string (Num x)"
  let ?d = "pre @ take k (encode lc (BNumber (Num x)))"
  have le: "k - 1 \<le> length ?ds" using assms by simp
  have tk: "take k (encode lc (BNumber (Num x))) = of_char CHR ''i'' # take (k - 1) ?ds"
    using False le by (cases k) simp_all
  have ch: "charAt ?d (length pre) = Some (of_char CHR ''i'')" unfolding tk by simp
  have "drop (length pre + 1) ?d = take (k - 1) ?ds" unfolding tk by simp
  then have "set (drop (length pre + 1) ?d) \<subseteq> set ?ds" by (simp add: set_take_subset)
  then have "of_char CHR ''e'' \<notin> set (drop (length pre + 1) ?d)"
    using number_to_string_no_e [of x] by blast
  then have "scan_integer ?d (length pre + 1) = Inl UnterminatedInteger"
    by (rule scan_integer_missing)
  then have "decodeInteger ?d (length pre) = Inl UnterminatedInteger"
    by (simp add: decodeInteger_def)
  then show ?thesis
    unfolding decode_at.simps ch by (simp add: fails_def)
qed

declare encode.simps [simp del]

lemma fuel_cut: "2 * j + 1 < Suc n \<Longrightarrow> \<not> j < a \<Longrightarrow> 0 < a \<Longrightarrow> 2 * (j - a) + 1 < (n::nat)"
  by arith

lemma fails_list_loop:
  assumes cut: "\<And>x k n pre. x \<in> set xs \<Longrightarrow> k < length (encode lc x) \<Longrightarrow> 2 * k < n \<Longrightarrow>
            cut_short (pre @ take k (encode lc x)) (decode_at n (pre @ take k (encode lc x)) (length pre))"
    and wf: "\<And>x. x \<in> set xs \<Longrightarrow> wf_value x"
  shows "j \<le> length (concat (map (encode lc) xs)) \<Longrightarrow> 2 * j + 1 < fuel \<Longrightarrow>
         fails (decodeList fuel (pre @ take j (concat (map (encode lc) xs))) (length pre) acc)"
  using cut wf
proof (induction xs arbitrary: j fuel pre acc)
  case Nil
  then obtain n where n: "fuel = Suc n" by (cases fuel) auto
  show ?case unfolding n by (simp add: fails_def decode_at_end)
next
  case (Cons x xs)
  from Cons.prems(2) obtain n where n: "fuel = Suc n" by (cases fuel) auto
  let ?body = "concat (map (encode lc) xs)"
  let ?d = "pre @ take j (concat (map (encode lc) (x # xs)))"
  show ?case
  proof (cases "j = 0")
    case True
    then show ?thesis unfolding n by (simp add: fails_def decode_at_end)
  next
    case j0: False
    obtain c cs where c: "encode lc x = c # cs" "c \<noteq> of_char CHR ''e''"
      using encode_first_not_e [of lc x] by auto
    have ch: "charAt ?d (length pre) = Some c"
      using j0 by (cases j) (simp_all add: c)
    have lt: "length pre < length ?d"
      using j0 by (cases j) (simp_all add: c)
    have ne: "(Some c \<noteq> Some (of_char CHR ''e'')) = True" using c(2) by simp
    have nlt: "(length ?d \<le> length pre) = False" using lt by simp
    have n1: "0 < n" using Cons.prems(2) j0 unfolding n by simp
    then obtain m where m: "n = Suc m" by (cases n) auto
    show ?thesis
    proof (cases "j < length (encode lc x)")
      case True
      then have d: "?d = pre @ take j (encode lc x)" by simp
      have "2 * j < n" using Cons.prems(2) unfolding n by simp
      then have "cut_short ?d (decode_at n ?d (length pre))"
        unfolding d using True by (intro Cons.prems(3)) simp_all
      then consider e where "decode_at n ?d (length pre) = Some (Inl e)"
        | w where "decode_at n ?d (length pre) = Some (Inr (w, length ?d))"
        by (auto simp: cut_short_def fails_def)
      then show ?thesis
      proof cases
        case 1
        show ?thesis
          unfolding n decodeList.simps
          by (simp only: ch ne nlt 1 if_True if_False option.case sum.case fails_def) blast
      next
        case 2
        have "decodeList n ?d (length ?d) (acc @ [w]) = Some (Inl UnterminatedList)"
          unfolding m by (rule decode_at_end) simp
        then show ?thesis
          unfolding n decodeList.simps
          by (simp only: ch ne nlt 2 if_True if_False option.case sum.case prod.case fails_def) blast
      qed
    next
      case False
      define j' where "j' = j - length (encode lc x)"
      have j': "j' \<le> length ?body" using Cons.prems(1) False by (simp add: j'_def)
      have d: "?d = pre @ encode lc x @ take j' ?body"
        using False by (simp add: j'_def)
      have fx: "2 * length (encode lc x) < n"
        using Cons.prems(2) False unfolding n by simp
      have wx: "wf_value x" using Cons.prems(4) by simp
      have dx: "decode_at n ?d (length pre) = Some (Inr (decoded lc x, length pre + length (encode lc x)))"
        unfolding d using wx fx by (rule roundtrip_at)
      have fr: "2 * j' + 1 < n"
        using Cons.prems(2) False length_encode_pos [of lc x] unfolding n j'_def
        by (rule fuel_cut)
      have "fails (decodeList n ((pre @ encode lc x) @ take j' ?body) (length (pre @ encode lc x))
               (acc @ [decoded lc x]))"
        using j' fr Cons.prems(3,4) by (intro Cons.IH) simp_all
      then have rec: "fails (decodeList n ?d (length pre + length (encode lc x)) (acc @ [decoded lc x]))"
        unfolding d by simp
      show ?thesis
        unfolding n decodeList.simps using rec
        by (simp only: ch ne nlt dx if_True if_False option.case sum.case prod.case)
    qed
  qed
qed

lemma fuel_cut2: "2 * j + 1 < Suc n \<Longrightarrow> \<not> j < a \<Longrightarrow> \<not> j - a < b \<Longrightarrow> 0 < b \<Longrightarrow> 2 * (j - a - b) + 1 < (n::nat)"
  by arith

lemma charAt_take_first:
  assumes "xs = c # cs" and "0 < j"
  shows "charAt (pre @ take j (xs @ rest)) (length pre) = Some c"
    and "length pre < length (pre @ take j (xs @ rest))"
  using assms by (cases j; simp)+

lemma fails_dictionary_loop:
  assumes cut: "\<And>e k n pre. e \<in> set es \<Longrightarrow> k < length (encode lc (snd e)) \<Longrightarrow> 2 * k < n \<Longrightarrow>
            cut_short (pre @ take k (encode lc (snd e)))
              (decode_at n (pre @ take k (encode lc (snd e))) (length pre))"
    and wf: "\<And>e. e \<in> set es \<Longrightarrow> wf_value (snd e)"
  shows "j \<le> length (concat (map (\<lambda>(k, v). encode lc (BString k) @ encode lc v) es)) \<Longrightarrow>
         2 * j + 1 < fuel \<Longrightarrow>
         fails (decodeDictionary fuel
                  (pre @ take j (concat (map (\<lambda>(k, v). encode lc (BString k) @ encode lc v) es)))
                  (length pre) acc)"
  using cut wf
proof (induction es arbitrary: j fuel pre acc)
  case Nil
  then obtain n where n: "fuel = Suc n" by (cases fuel) auto
  show ?case unfolding n by (simp add: fails_def decode_at_end)
next
  case (Cons e es)
  obtain key v where e: "e = (key, v)" by (cases e)
  from Cons.prems(2) obtain n where n: "fuel = Suc n" by (cases fuel) auto
  let ?enc = "\<lambda>(k, v). encode lc (BString k) @ encode lc v"
  let ?ek = "encode lc (BString key)"
  let ?ev = "encode lc v"
  let ?body = "concat (map ?enc es)"
  let ?d = "pre @ take j (concat (map ?enc (e # es)))"
  have all: "concat (map ?enc (e # es)) = ?ek @ ?ev @ ?body" by (simp add: e)
  show ?case
  proof (cases "j = 0")
    case True
    then show ?thesis unfolding n by (simp add: fails_def decode_at_end)
  next
    case j0: False
    have n1: "0 < n" using Cons.prems(2) j0 unfolding n by simp
    then obtain m where m: "n = Suc m" by (cases n) auto
    obtain c cs where c: "?ek = c # cs" and cd: "is_digit c"
      using encode_string_first [of lc key] by auto
    have jp: "0 < j" using j0 by simp
    have ch: "charAt ?d (length pre) = Some c"
      unfolding all using c jp by (rule charAt_take_first)
    have lt: "length pre < length ?d"
      unfolding all using c jp by (rule charAt_take_first)
    have ne: "(Some c \<noteq> Some (of_char CHR ''e'')) = True"
      using cd is_digit_not_tag [of c] by simp
    have nlt: "(length ?d \<le> length pre) = False" using lt by simp
    have at_end: "decode_at n ?d (length ?d) = Some (Inl (InvalidData (length ?d)))"
      unfolding m by (rule decode_at_end) simp
    have loop_end: "decodeDictionary n ?d (length ?d) r = Some (Inl UnterminatedDictionary)" for r
      unfolding m by (rule decode_at_end) simp
    show ?thesis
    proof (cases "j < length ?ek")
      case True
      then have d: "?d = pre @ take j ?ek" unfolding all by simp
      have "cut_short ?d (decode_at n ?d (length pre))"
        unfolding d m using True by (rule cut_short_string)
      then consider err where "decode_at n ?d (length pre) = Some (Inl err)"
        | w where "decode_at n ?d (length pre) = Some (Inr (w, length ?d))"
        by (auto simp: cut_short_def fails_def)
      then show ?thesis
      proof cases
        case 1
        show ?thesis
          unfolding n decodeDictionary.simps
          by (simp only: ch ne nlt 1 if_True if_False option.case sum.case fails_def) blast
      next
        case 2
        show ?thesis
          unfolding n decodeDictionary.simps
          by (cases w)
             (simp_all only: ch ne nlt 2 at_end if_True if_False option.case sum.case prod.case
                bvalue.case fails_def, blast+)
      qed
    next
      case kfull: False
      define j1 where "j1 = j - length ?ek"
      have d1: "?d = pre @ ?ek @ take j1 (?ev @ ?body)"
        unfolding all using kfull by (simp add: j1_def)
      have ds: "decodeString ?d (length pre) = Inr (BString key, length pre + length ?ek)"
        unfolding d1 by (rule decodeString_encode)
      have dk: "decode_at n ?d (length pre) = Some (Inr (BString key, length pre + length ?ek))"
        unfolding m decode_at.simps ch ds using cd is_digit_not_tag [of c] by simp
      show ?thesis
      proof (cases "j1 < length ?ev")
        case True
        then have d2: "?d = (pre @ ?ek) @ take j1 ?ev" unfolding d1 by simp
        have "2 * j1 < n" using Cons.prems(2) unfolding n j1_def by simp
        then have "cut_short ((pre @ ?ek) @ take j1 (encode lc (snd e)))
                (decode_at n ((pre @ ?ek) @ take j1 (encode lc (snd e))) (length (pre @ ?ek)))"
          using True by (intro Cons.prems(3)) (simp_all add: e)
        then have "cut_short ?d (decode_at n ?d (length pre + length ?ek))"
          unfolding d2 by (simp add: e)
        then consider err where "decode_at n ?d (length pre + length ?ek) = Some (Inl err)"
          | w where "decode_at n ?d (length pre + length ?ek) = Some (Inr (w, length ?d))"
          by (auto simp: cut_short_def fails_def)
        then show ?thesis
        proof cases
          case 1
          show ?thesis
            unfolding n decodeDictionary.simps
            by (simp only: ch ne nlt dk 1 if_True if_False option.case sum.case prod.case
                  bvalue.case fails_def) blast
        next
          case 2
          show ?thesis
            unfolding n decodeDictionary.simps
            by (simp only: ch ne nlt dk 2 loop_end if_True if_False option.case sum.case prod.case
                  bvalue.case fails_def) blast
        qed
      next
        case vfull: False
        define j2 where "j2 = j1 - length ?ev"
        have j2: "j2 \<le> length ?body"
          using Cons.prems(1) kfull vfull unfolding all by (simp add: j1_def j2_def)
        have d3: "?d = pre @ ?ek @ ?ev @ take j2 ?body"
          unfolding d1 using vfull by (simp add: j2_def)
        have fv: "2 * length ?ev < n"
          using Cons.prems(2) vfull unfolding n j1_def by simp
        have wv: "wf_value v" using Cons.prems(4) [of e] by (simp add: e)
        have "decode_at n ((pre @ ?ek) @ ?ev @ take j2 ?body) (length (pre @ ?ek))
                = Some (Inr (decoded lc v, length (pre @ ?ek) + length ?ev))"
          using wv fv by (rule roundtrip_at)
        then have dv: "decode_at n ?d (length pre + length ?ek)
                = Some (Inr (decoded lc v, length pre + length ?ek + length ?ev))"
          unfolding d3 by simp
        have fr: "2 * j2 + 1 < n"
          using Cons.prems(2) kfull vfull [unfolded j1_def] length_encode_pos [of lc v]
          unfolding n j2_def j1_def by (rule fuel_cut2)
        have "fails (decodeDictionary n ((pre @ ?ek @ ?ev) @ take j2 ?body) (length (pre @ ?ek @ ?ev))
                 (obj_set acc key (decoded lc v)))"
          using j2 fr Cons.prems(3,4) by (intro Cons.IH) simp_all
        then have rec: "fails (decodeDictionary n ?d (length pre + length ?ek + length ?ev)
                 (obj_set acc key (decoded lc v)))"
          unfolding d3 by (simp add: add.assoc)
        show ?thesis
          unfolding n decodeDictionary.simps using rec
          by (simp only: ch ne nlt dk dv if_True if_False option.case sum.case prod.case bvalue.case)
      qed
    qed
  qed
qed

lemma fails_cut_short: "fails r \<Longrightarrow> cut_short d r"
  by (simp add: cut_short_def)

lemma fuel_inner: "2 * k < Suc n \<Longrightarrow> 0 < k \<Longrightarrow> 2 * (k - 1) + 1 < (n::nat)"
  by arith

lemma take_tagged:
  assumes "0 < k" and "k < length (t # body @ [e])"
  shows "take k (t # body @ [e]) = t # take (k - 1) body" and "k - 1 \<le> length body"
  using assms by (cases k; simp)+

lemma cut_value:
  "wf_value v \<Longrightarrow> k < length (encode lc v) \<Longrightarrow> 2 * k < fuel \<Longrightarrow>
   cut_short (pre @ take k (encode lc v)) (decode_at fuel (pre @ take k (encode lc v)) (length pre))
   \<and> ((\<forall>s. v \<noteq> BString s) \<longrightarrow>
        fails (decode_at fuel (pre @ take k (encode lc v)) (length pre)))"
proof (induction v arbitrary: k fuel pre)
  case (BString s)
  then obtain n where n: "fuel = Suc n" by (cases fuel) auto
  have "cut_short (pre @ take k (encode lc (BString s)))
          (decode_at (Suc n) (pre @ take k (encode lc (BString s))) (length pre))"
    using BString.prems(2) by (rule cut_short_string)
  then show ?case unfolding n by blast
next
  case (BNumber x)
  then obtain y where y: "x = Num y" by (cases x) auto
  from BNumber obtain n where n: "fuel = Suc n" by (cases fuel) auto
  have "fails (decode_at (Suc n) (pre @ take k (encode lc (BNumber (Num y)))) (length pre))"
    using BNumber.prems(2) unfolding y by (rule fails_number)
  then show ?case unfolding n y by (blast intro: fails_cut_short)
next
  case (BList xs)
  from BList.prems obtain n where n: "fuel = Suc n" by (cases fuel) auto
  let ?body = "concat (map (encode lc) xs)"
  let ?d = "pre @ take k (encode lc (BList xs))"
  have "fails (decode_at fuel ?d (length pre))"
  proof (cases "k = 0")
    case True
    then show ?thesis unfolding n by (simp add: fails_def decode_at_end)
  next
    case False
    then have kp: "0 < k" by simp
    have kl: "k < length (of_char CHR ''l'' # ?body @ [of_char CHR ''e''])"
      using BList.prems(2) by (simp only: encode.simps(3))
    have tk: "take k (encode lc (BList xs)) = of_char CHR ''l'' # take (k - 1) ?body"
      unfolding encode.simps(3) using kp kl by (rule take_tagged)
    have j: "k - 1 \<le> length ?body" using kp kl by (rule take_tagged)
    have f: "2 * (k - 1) + 1 < n" using BList.prems(3) kp unfolding n by (rule fuel_inner)
    have ch: "charAt ?d (length pre) = Some (of_char CHR ''l'')" unfolding tk by simp
    have cut: "cut_short (p @ take i (encode lc x)) (decode_at m (p @ take i (encode lc x)) (length p))"
      if "x \<in> set xs" "i < length (encode lc x)" "2 * i < m" for x i m p
      using BList.IH [OF that(1) _ that(2,3), of p] BList.prems(1) that(1) by simp
    have "fails (decodeList n ((pre @ [of_char CHR ''l'']) @ take (k - 1) ?body)
                   (length (pre @ [of_char CHR ''l''])) [])"
      using cut BList.prems(1) j f by (intro fails_list_loop) simp_all
    then show ?thesis unfolding n tk decode_at.simps using ch [unfolded tk] by simp
  qed
  then show ?case by (blast intro: fails_cut_short)
next
  case (BDict es)
  from BDict.prems obtain n where n: "fuel = Suc n" by (cases fuel) auto
  let ?ses = "sort_entries lc es"
  let ?enc = "\<lambda>(k, v). encode lc (BString k) @ encode lc v"
  let ?body = "concat (map ?enc ?ses)"
  let ?d = "pre @ take k (encode lc (BDict es))"
  have "fails (decode_at fuel ?d (length pre))"
  proof (cases "k = 0")
    case True
    then show ?thesis unfolding n by (simp add: fails_def decode_at_end)
  next
    case False
    then have kp: "0 < k" by simp
    have kl: "k < length (of_char CHR ''d'' # ?body @ [of_char CHR ''e''])"
      using BDict.prems(2) by (simp only: encode.simps(4))
    have tk: "take k (encode lc (BDict es)) = of_char CHR ''d'' # take (k - 1) ?body"
      unfolding encode.simps(4) using kp kl by (rule take_tagged)
    have j: "k - 1 \<le> length ?body" using kp kl by (rule take_tagged)
    have f: "2 * (k - 1) + 1 < n" using BDict.prems(3) kp unfolding n by (rule fuel_inner)
    have ch: "charAt ?d (length pre) = Some (of_char CHR ''d'')" unfolding tk by simp
    have wfe: "wf_value (snd e)" if "e \<in> set ?ses" for e
      using that BDict.prems(1) by (simp add: set_sort_entries)
    have cut: "cut_short (p @ take i (encode lc (snd e)))
                 (decode_at m (p @ take i (encode lc (snd e))) (length p))"
      if "e \<in> set ?ses" "i < length (encode lc (snd e))" "2 * i < m" for e i m p
    proof -
      from that(1) have m: "e \<in> set es" by (simp add: set_sort_entries)
      have s: "snd e \<in> Basic_BNFs.snds e" by (cases e) simp
      from BDict.IH [OF m s wfe [OF that(1)] that(2,3), of p] show ?thesis by simp
    qed
    have "fails (decodeDictionary n ((pre @ [of_char CHR ''d'']) @ take (k - 1) ?body)
                   (length (pre @ [of_char CHR ''d''])) [])"
      using cut wfe j f by (intro fails_dictionary_loop) simp_all
    then show ?thesis unfolding n tk decode_at.simps using ch [unfolded tk] by simp
  qed
  then show ?case by (blast intro: fails_cut_short)
qed

lemma split_map_first_attempt_fails:
  assumes "wf_value (BDict es)" and "k < length (encode lc (BDict es))"
  shows "\<exists>err. decode (take k (encode lc (BDict es))) = Some (Inl err)"
proof -
  have "2 * k < 2 * length (take k (encode lc (BDict es))) + 1"
    using assms(2) by simp
  from cut_value [OF assms this, of "[]"]
  show ?thesis by (simp add: decode_def fails_def)
qed

lemma split_rejoined:
  "decode (take k d @ drop k d) = decode d"
  by simp

declare encode.simps [simp]

subsection \<open>Round trip and streaming for maps without the key \<open>__proto__\<close>\<close>

lemma roundtrip_plain_keys:
  assumes "wf_value v" and "plain_keys v"
  shows "\<exists>w. decode (encode lc v) = Some (Inr (w, length (encode lc v))) \<and> deep_equal w v"
  using decode_encode_exact [OF assms(1), of lc "[]"] denote_decoded [OF assms, of lc]
  by (simp add: deep_equal_def)

lemma two_maps_in_one_buffer:
  assumes "wf_value (BDict m1)" and "wf_value (BDict m2)"
  shows "decode (encode lc (BDict m1) @ encode lc (BDict m2))
           = Some (Inr (decoded lc (BDict m1), length (encode lc (BDict m1))))"
    and "decode (drop (length (encode lc (BDict m1))) (encode lc (BDict m1) @ encode lc (BDict m2)))
           = Some (Inr (decoded lc (BDict m2), length (encode lc (BDict m2))))"
    and "plain_keys (BDict m1) \<Longrightarrow> deep_equal (decoded lc (BDict m1)) (BDict m1)"
    and "plain_keys (BDict m2) \<Longrightarrow> deep_equal (decoded lc (BDict m2)) (BDict m2)"
proof -
  show "decode (encode lc (BDict m1) @ encode lc (BDict m2))
           = Some (Inr (decoded lc (BDict m1), length (encode lc (BDict m1))))"
    using assms(1) by (rule decode_encode_exact)
  have "decode (encode lc (BDict m2) @ [])
           = Some (Inr (decoded lc (BDict m2), length (encode lc (BDict m2))))"
    using assms(2) by (rule decode_encode_exact)
  then show "decode (drop (length (encode lc (BDict m1))) (encode lc (BDict m1) @ encode lc (BDict m2)))
           = Some (Inr (decoded lc (BDict m2), length (encode lc (BDict m2))))"
    by simp
  show "plain_keys (BDict m1) \<Longrightarrow> deep_equal (decoded lc (BDict m1)) (BDict m1)"
    unfolding deep_equal_def using assms(1) by (rule denote_decoded)
  show "plain_keys (BDict m2) \<Longrightarrow> deep_equal (decoded lc (BDict m2)) (BDict m2)"
    unfolding deep_equal_def using assms(2) by (rule denote_decoded)
qed

lemma fmap_of_list_nonempty: "fmap_of_list [] \<noteq> fmap_of_list ((k, v) # es)"
proof
  assume "fmap_of_list [] = fmap_of_list ((k, v) # es)"
  then have "fmlookup (fmap_of_list []) k = fmlookup (fmap_of_list ((k, v) # es)) k"
    by (rule arg_cong)
  then show False by (simp add: fmlookup_of_list)
qed

subsection \<open>A comparison that reports different keys as equal\<close>

lemma ties_show_insertion_order:
  assumes tie: "lc a b \<le> 0" "lc b a \<le> 0" and ne: "a \<noteq> b"
    and pa: "a \<noteq> js ''__proto__''" and pb: "b \<noteq> js ''__proto__''"
    and wx: "wf_value x" and wy: "wf_value y"
  shows "encode lc (BDict [(a, x), (b, y)]) \<noteq> encode lc (BDict [(b, y), (a, x)])"
proof
  assume eq: "encode lc (BDict [(a, x), (b, y)]) = encode lc (BDict [(b, y), (a, x)])"
  have w1: "wf_value (BDict [(a, x), (b, y)])" using ne wx wy by simp
  have w2: "wf_value (BDict [(b, y), (a, x)])" using ne wx wy by auto
  have d1: "decoded lc (BDict [(a, x), (b, y)]) = BDict [(a, decoded lc x), (b, decoded lc y)]"
    using tie ne pa pb by (simp add: sort_entries_def set_entry_def obj_set_def)
  have d2: "decoded lc (BDict [(b, y), (a, x)]) = BDict [(b, decoded lc y), (a, decoded lc x)]"
    using tie ne pa pb by (simp add: sort_entries_def set_entry_def obj_set_def)
  have "decode (encode lc (BDict [(a, x), (b, y)]) @ [])
          = Some (Inr (decoded lc (BDict [(a, x), (b, y)]), length (encode lc (BDict [(a, x), (b, y)]))))"
    using w1 by (rule decode_encode_exact)
  moreover have "decode (encode lc (BDict [(b, y), (a, x)]) @ [])
          = Some (Inr (decoded lc (BDict [(b, y), (a, x)]), length (encode lc (BDict [(b, y), (a, x)]))))"
    using w2 by (rule decode_encode_exact)
  ultimately have "decoded lc (BDict [(a, x), (b, y)]) = decoded lc (BDict [(b, y), (a, x)])"
    unfolding eq by simp
  then show False unfolding d1 d2 using ne by simp
qed

subsection \<open>Encoding does not depend on the insertion order\<close>

lemma map_of_fmap_of_list:
  assumes "fmap_of_list xs = fmap_of_list ys"
  shows "map_of xs = map_of ys"
proof
  fix k
  from assms have "fmlookup (fmap_of_list xs) k = fmlookup (fmap_of_list ys) k" by simp
  then show "map_of xs k = map_of ys k" by (simp add: fmlookup_of_list)
qed

lemma same_entries:
  assumes "fmap_of_list (map (map_prod id f) es) = fmap_of_list (map (map_prod id f) fs)"
    and "distinct (map fst es)" and "distinct (map fst fs)"
  shows "set (map (map_prod id f) es) = set (map (map_prod id f) fs)"
proof -
  have m: "map_of (map (map_prod id f) es) = map_of (map (map_prod id f) fs)"
    using assms(1) by (rule map_of_fmap_of_list)
  have d1: "distinct (map fst (map (map_prod id f) es))" using assms(2) by (simp add: comp_def)
  have d2: "distinct (map fst (map (map_prod id f) fs))" using assms(3) by (simp add: comp_def)
  from d1 d2 m show ?thesis by (simp only: map_of_inject_set)
qed

lemma encode_entries:
  "map (\<lambda>(k, v). encode lc (BString k) @ encode lc v) es
     = map (\<lambda>(k, t). encode lc (BString k) @ t) (map (map_prod id (encode lc)) es)"
  by (induction es) auto

lemma encode_order_free:
  "wf_value a \<Longrightarrow> wf_value b \<Longrightarrow> denote a = denote b \<Longrightarrow> keys_consistent lc a
     \<Longrightarrow> encode lc a = encode lc b"
proof (induction a arbitrary: b)
  case (BString s)
  then show ?case by (cases b) simp_all
next
  case (BNumber n)
  then show ?case by (cases b) simp_all
next
  case (BList xs)
  from BList.prems(3) obtain ys where b: "b = BList ys" and m: "map denote xs = map denote ys"
    by (cases b) simp_all
  have len: "length xs = length ys" using m by (rule map_eq_imp_length_eq)
  have "map (encode lc) xs = map (encode lc) ys"
  proof (rule nth_equalityI)
    show "length (map (encode lc) xs) = length (map (encode lc) ys)" using len by simp
  next
    fix i
    assume "i < length (map (encode lc) xs)"
    then have i: "i < length xs" by simp
    then have j: "i < length ys" using len by simp
    have x: "xs ! i \<in> set xs" using i by simp
    have y: "ys ! i \<in> set ys" using j by simp
    have "map denote xs ! i = map denote ys ! i" using m by simp
    then have d: "denote (xs ! i) = denote (ys ! i)" using i j by simp
    have "encode lc (xs ! i) = encode lc (ys ! i)"
      using x y d BList.prems unfolding b by (intro BList.IH) simp_all
    then show "map (encode lc) xs ! i = map (encode lc) ys ! i" using i j by simp
  qed
  then show ?case unfolding b by simp
next
  case (BDict es)
  from BDict.prems(3) obtain fs where b: "b = BDict fs"
    and m: "fmap_of_list (map (map_prod id denote) es) = fmap_of_list (map (map_prod id denote) fs)"
    by (cases b) simp_all
  have de: "distinct (map fst es)" using BDict.prems(1) by simp
  have df: "distinct (map fst fs)" using BDict.prems(2) unfolding b by simp
  have c: "consistent_on lc (fst ` set es)" using BDict.prems(4) by simp
  have s: "set (map (map_prod id denote) es) = set (map (map_prod id denote) fs)"
    using m de df by (rule same_entries)
  have step: "encode lc v = encode lc w"
    if "(k, v) \<in> set es" and "(k, w) \<in> set fs" and "denote v = denote w" for k v w
  proof -
    have "v \<in> Basic_BNFs.snds (k, v)" by simp
    moreover have "wf_value v" using BDict.prems(1) that(1) by auto
    moreover have "wf_value w" using BDict.prems(2) that(2) unfolding b by auto
    moreover have "keys_consistent lc v" using BDict.prems(4) that(1) by auto
    ultimately show ?thesis using that(1,3) by (intro BDict.IH [of "(k, v)" v w])
  qed
  have sub1: "set (map (map_prod id (encode lc)) es) \<subseteq> set (map (map_prod id (encode lc)) fs)"
  proof
    fix x
    assume "x \<in> set (map (map_prod id (encode lc)) es)"
    then obtain k v where kv: "(k, v) \<in> set es" and x: "x = (k, encode lc v)" by auto
    have "(k, denote v) \<in> set (map (map_prod id denote) es)" using kv by force
    then have "(k, denote v) \<in> set (map (map_prod id denote) fs)" using s by simp
    then obtain w where kw: "(k, w) \<in> set fs" and d: "denote v = denote w" by auto
    have "encode lc v = encode lc w" using kv kw d by (rule step)
    then show "x \<in> set (map (map_prod id (encode lc)) fs)" using kw x by force
  qed
  have sub2: "set (map (map_prod id (encode lc)) fs) \<subseteq> set (map (map_prod id (encode lc)) es)"
  proof
    fix x
    assume "x \<in> set (map (map_prod id (encode lc)) fs)"
    then obtain k w where kw: "(k, w) \<in> set fs" and x: "x = (k, encode lc w)" by auto
    have "(k, denote w) \<in> set (map (map_prod id denote) fs)" using kw by force
    then have "(k, denote w) \<in> set (map (map_prod id denote) es)" using s by simp
    then obtain v where kv: "(k, v) \<in> set es" and d: "denote v = denote w" by auto
    have "encode lc v = encode lc w" using kv kw d by (rule step)
    then show "x \<in> set (map (map_prod id (encode lc)) es)" using kv x by force
  qed
  have eq: "set (map (map_prod id (encode lc)) es) = set (map (map_prod id (encode lc)) fs)"
    using sub1 sub2 by (rule equalityI)
  have k1: "fst ` set (map (map_prod id (encode lc)) es) = fst ` set es"
    by (simp add: image_image)
  have d1: "distinct (map fst (map (map_prod id (encode lc)) es))" using de by (simp add: comp_def)
  have d2: "distinct (map fst (map (map_prod id (encode lc)) fs))" using df by (simp add: comp_def)
  have c1: "consistent_on lc (fst ` set (map (map_prod id (encode lc)) es))"
    using c by (simp only: k1)
  have so: "sort_entries lc (map (map_prod id (encode lc)) es)
          = sort_entries lc (map (map_prod id (encode lc)) fs)"
    using c1 d1 d2 eq by (rule sort_entries_order_free)
  have "map (\<lambda>(k, v). encode lc (BString k) @ encode lc v) (sort_entries lc es)
        = map (\<lambda>(k, t). encode lc (BString k) @ t)
            (sort_entries lc (map (map_prod id (encode lc)) es))"
    by (simp only: encode_entries sort_entries_map)
  also have "\<dots> = map (\<lambda>(k, t). encode lc (BString k) @ t)
            (sort_entries lc (map (map_prod id (encode lc)) fs))"
    by (simp only: so)
  also have "\<dots> = map (\<lambda>(k, v). encode lc (BString k) @ encode lc v) (sort_entries lc fs)"
    by (simp only: encode_entries sort_entries_map)
  finally show ?case unfolding b by (simp only: encode.simps)
qed

lemma fmap_of_list_swap:
  assumes "k \<noteq> k'"
  shows "fmap_of_list [(k, v), (k', v')] = fmap_of_list [(k', v'), (k, v)]"
  by (rule fmap_ext) (use assms in \<open>auto simp: fmlookup_of_list\<close>)
section \<open>Properties of the client\<close>

lemma settle_other: "j \<noteq> i \<Longrightarrow> settle ps i x j = ps j"
  by (simp add: settle_def split: option.splits promise.splits)

lemma armed_pending_send:
  assumes "armed_pending s"
  shows "armed_pending (send lc s i m)"
  using assms by (auto simp: armed_pending_def send_def)

lemma armed_pending_timeout:
  assumes "armed_pending s"
  shows "armed_pending (timeout_fired s i)"
proof (cases "timers s i")
  case None
  with assms show ?thesis by (simp add: timeout_fired_def)
next
  case (Some dm)
  obtain d m where dm: "dm = (d, m)" by (cases dm)
  show ?thesis
    unfolding armed_pending_def
  proof (intro allI impI)
    fix j d' m'
    assume t: "timers (timeout_fired s i) j = Some (d', m')"
    then have ne: "j \<noteq> i" using Some dm by (auto simp: timeout_fired_def split: if_splits)
    with t have "timers s j = Some (d', m')" using Some dm by (simp add: timeout_fired_def)
    with assms have "d' = 30000" "promises s j = Some Pending" "messageCallbacks s j \<noteq> None"
      unfolding armed_pending_def by blast+
    with ne show "d' = 30000 \<and> promises (timeout_fired s i) j = Some Pending
        \<and> messageCallbacks (timeout_fired s i) j \<noteq> None"
      using Some dm by (simp add: timeout_fired_def settle_other)
  qed
qed

lemma armed_pending_callback:
  assumes "armed_pending s" and "messageCallbacks s i = Some acc"
  shows "armed_pending (callback s i acc r)"
proof (cases "includes_done r")
  case False
  with assms show ?thesis by (auto simp: armed_pending_def callback_def Let_def)
next
  case True
  show ?thesis
    unfolding armed_pending_def
  proof (intro allI impI)
    fix j d m
    assume t: "timers (callback s i acc r) j = Some (d, m)"
    then have ne: "j \<noteq> i" using True by (auto simp: callback_def Let_def split: if_splits)
    with t have "timers s j = Some (d, m)" using True by (simp add: callback_def Let_def)
    with assms have "d = 30000" "promises s j = Some Pending" "messageCallbacks s j \<noteq> None"
      unfolding armed_pending_def by blast+
    with ne show "d = 30000 \<and> promises (callback s i acc r) j = Some Pending
        \<and> messageCallbacks (callback s i acc r) j \<noteq> None"
      using True by (simp add: callback_def Let_def settle_other)
  qed
qed

lemma timers_callback_done:
  "includes_done r \<Longrightarrow> timers (callback s i acc r) i = None"
  by (simp add: callback_def Let_def)

lemma armed_pending_response:
  assumes "armed_pending s"
  shows "armed_pending (handleData_response s r)"
proof (cases "r_id r")
  case None
  with assms show ?thesis by (simp add: handleData_response_def)
next
  case (Some i)
  show ?thesis
  proof (cases "i = [] \<or> messageCallbacks s i = None")
    case True
    with assms Some show ?thesis by (auto simp: handleData_response_def)
  next
    case False
    then obtain acc where acc: "messageCallbacks s i = Some acc" and ne: "i \<noteq> []" by auto
    have a: "armed_pending (callback s i acc r)"
      using assms acc by (rule armed_pending_callback)
    show ?thesis
    proof (cases "includes_done r")
      case nd: False
      with a Some acc ne show ?thesis by (simp add: handleData_response_def Let_def)
    next
      case True
      have "armed_pending ((callback s i acc r)
              \<lparr>messageCallbacks := (messageCallbacks (callback s i acc r))(i := None)\<rparr>)"
        using a timers_callback_done [OF True, of s i acc]
        by (auto simp: armed_pending_def)
      with True Some acc ne show ?thesis by (simp add: handleData_response_def Let_def)
    qed
  qed
qed

lemma armed_pending_fields:
  assumes "armed_pending s"
    and "timers s' = timers s" "promises s' = promises s" "messageCallbacks s' = messageCallbacks s"
  shows "armed_pending s'"
  using assms by (simp add: armed_pending_def)

lemma connect_fields:
  "timers (on_connect s) = timers s" "promises (on_connect s) = promises s"
  "messageCallbacks (on_connect s) = messageCallbacks s"
  by (simp_all add: on_connect_def)

lemma close_fields:
  "timers (on_close s) = timers s" "promises (on_close s) = promises s"
  "messageCallbacks (on_close s) = messageCallbacks s" "connected (on_close s) = False"
  by (simp_all add: on_close_def Let_def)

lemma error_fields:
  "timers (on_error s msg) = timers s" "promises (on_error s msg) = promises s"
  "messageCallbacks (on_error s msg) = messageCallbacks s" "connected (on_error s msg) = False"
  "lastError (on_error s msg) = Some (Error msg)"
  by (simp_all add: on_error_def)

lemma clone_fields:
  "timers (fst (clone_result s rs)) = timers s" "promises (fst (clone_result s rs)) = promises s"
  "messageCallbacks (fst (clone_result s rs)) = messageCallbacks s"
  by (simp_all add: clone_result_def Let_def split: list.splits)

lemma eval_fields:
  "timers (fst (eval_result s rs)) = timers s" "promises (fst (eval_result s rs)) = promises s"
  "messageCallbacks (fst (eval_result s rs)) = messageCallbacks s"
  by (simp_all add: eval_result_def Let_def)

lemma reachable_armed_pending: "reachable lc s \<Longrightarrow> armed_pending s"
proof (induction rule: reachable.induct)
  case start
  show ?case by (simp add: armed_pending_def new_client_def)
next
  case (sent s i m)
  from sent.IH show ?case by (rule armed_pending_send)
next
  case (received s r)
  from received.IH show ?case by (rule armed_pending_response)
next
  case (deadline s i)
  from deadline.IH show ?case by (rule armed_pending_timeout)
next
  case (socket_connect s)
  from socket_connect.IH show ?case by (rule armed_pending_fields) (rule connect_fields)+
next
  case (socket_error s msg)
  from socket_error.IH show ?case by (rule armed_pending_fields) (rule error_fields)+
next
  case (socket_close s)
  from socket_close.IH show ?case by (rule armed_pending_fields) (rule close_fields)+
next
  case (cloned s rs)
  from cloned.IH show ?case by (rule armed_pending_fields) (rule clone_fields)+
next
  case (evaluated s rs)
  from evaluated.IH show ?case by (rule armed_pending_fields) (rule eval_fields)+
qed

lemma timeout_fired_effect:
  assumes "timers s i = Some (d, m)" and "promises s i = Some Pending"
  shows "promises (timeout_fired s i) i = Some (Rejected (TimeoutError m))"
    and "messageCallbacks (timeout_fired s i) i = None"
    and "timers (timeout_fired s i) i = None"
    and "lastError (timeout_fired s i) = Some (TimeoutError m)"
  using assms by (simp_all add: timeout_fired_def settle_def)

lemma response_without_callback:
  "r_id r = Some i \<Longrightarrow> messageCallbacks s i = None \<Longrightarrow> handleData_response s r = s"
  by (simp add: handleData_response_def)

lemma or_else_first2: "first_nonempty [a, b] = (if truthy (or_else a b) then or_else a b else None)"
  by (simp add: first_nonempty_def or_else_def)

lemma or_else_first3:
  "first_nonempty [a, b, c]
     = (if truthy (or_else (or_else a b) c) then or_else (or_else a b) c else None)"
  by (simp add: first_nonempty_def or_else_def)

lemma map_filter_truthy:
  assumes "\<And>r. g r = (if truthy (f r) then f r else None)"
  shows "List.map_filter g rs = map the (filter truthy (map f rs))"
proof (induction rs)
  case Nil
  show ?case by (simp add: List.map_filter_simps)
next
  case (Cons r rs)
  show ?case
  proof (cases "truthy (f r)")
    case True
    then obtain x where "f r = Some x" by (cases "f r") (simp_all add: truthy_def)
    with True Cons show ?thesis by (simp add: List.map_filter_simps assms)
  next
    case False
    with Cons show ?thesis by (simp add: List.map_filter_simps assms)
  qed
qed

subsection \<open>A pending request keeps its timer\<close>

lemma settle_not_pending: "x \<noteq> Pending \<Longrightarrow> settle ps i x i \<noteq> Some Pending"
  by (simp add: settle_def split: option.splits promise.splits)

lemma pending_armed_send:
  assumes "pending_armed s"
  shows "pending_armed (send lc s i m)"
  using assms by (auto simp: pending_armed_def send_def)

lemma pending_armed_timeout:
  assumes "pending_armed s"
  shows "pending_armed (timeout_fired s i)"
proof (cases "timers s i")
  case None
  with assms show ?thesis by (simp add: timeout_fired_def)
next
  case (Some dm)
  obtain d m where dm: "dm = (d, m)" by (cases dm)
  show ?thesis
    unfolding pending_armed_def
  proof (intro allI impI)
    fix j
    assume p: "promises (timeout_fired s i) j = Some Pending"
    have ne: "j \<noteq> i"
    proof
      assume "j = i"
      with p have "settle (promises s) i (Rejected (TimeoutError m)) i = Some Pending"
        using Some dm by (simp add: timeout_fired_def)
      then show False
        using settle_not_pending [of "Rejected (TimeoutError m)" "promises s" i] by simp
    qed
    with p have "promises s j = Some Pending"
      using Some dm by (simp add: timeout_fired_def settle_other)
    with assms obtain m' where "timers s j = Some (30000, m')"
      unfolding pending_armed_def by blast
    with ne show "\<exists>m. timers (timeout_fired s i) j = Some (30000, m)"
      using Some dm by (simp add: timeout_fired_def)
  qed
qed

lemma pending_armed_callback:
  assumes "pending_armed s"
  shows "pending_armed (callback s i acc r)"
proof (cases "includes_done r")
  case False
  with assms show ?thesis by (simp add: pending_armed_def callback_def Let_def)
next
  case True
  show ?thesis
    unfolding pending_armed_def
  proof (intro allI impI)
    fix j
    assume p: "promises (callback s i acc r) j = Some Pending"
    have ne: "j \<noteq> i"
    proof
      assume "j = i"
      with p have "settle (promises s) i (Resolved (acc @ [r])) i = Some Pending"
        using True by (simp add: callback_def Let_def)
      then show False
        using settle_not_pending [of "Resolved (acc @ [r])" "promises s" i] by simp
    qed
    with p have "promises s j = Some Pending"
      using True by (simp add: callback_def Let_def settle_other)
    with assms obtain m' where "timers s j = Some (30000, m')"
      unfolding pending_armed_def by blast
    with ne show "\<exists>m. timers (callback s i acc r) j = Some (30000, m)"
      using True by (simp add: callback_def Let_def)
  qed
qed

lemma pending_armed_fields:
  assumes "pending_armed s" and "timers s' = timers s" "promises s' = promises s"
  shows "pending_armed s'"
  using assms by (simp add: pending_armed_def)

lemma pending_armed_response:
  assumes "pending_armed s"
  shows "pending_armed (handleData_response s r)"
proof (cases "r_id r")
  case None
  with assms show ?thesis by (simp add: handleData_response_def)
next
  case (Some i)
  show ?thesis
  proof (cases "i = [] \<or> messageCallbacks s i = None")
    case True
    with assms Some show ?thesis by (auto simp: handleData_response_def)
  next
    case False
    then obtain acc where acc: "messageCallbacks s i = Some acc" and ne: "i \<noteq> []" by auto
    have a: "pending_armed (callback s i acc r)"
      using assms by (rule pending_armed_callback)
    show ?thesis
    proof (cases "includes_done r")
      case nd: False
      with a Some acc ne show ?thesis by (simp add: handleData_response_def Let_def)
    next
      case True
      have "pending_armed ((callback s i acc r)
              \<lparr>messageCallbacks := (messageCallbacks (callback s i acc r))(i := None)\<rparr>)"
        using a by (rule pending_armed_fields) simp_all
      with True Some acc ne show ?thesis by (simp add: handleData_response_def Let_def)
    qed
  qed
qed

lemma reachable_pending_armed: "reachable lc s \<Longrightarrow> pending_armed s"
proof (induction rule: reachable.induct)
  case start
  show ?case by (simp add: pending_armed_def new_client_def)
next
  case (sent s i m)
  from sent.IH show ?case by (rule pending_armed_send)
next
  case (received s r)
  from received.IH show ?case by (rule pending_armed_response)
next
  case (deadline s i)
  from deadline.IH show ?case by (rule pending_armed_timeout)
next
  case (socket_connect s)
  from socket_connect.IH show ?case by (rule pending_armed_fields) (rule connect_fields)+
next
  case (socket_error s msg)
  from socket_error.IH show ?case by (rule pending_armed_fields) (rule error_fields)+
next
  case (socket_close s)
  from socket_close.IH show ?case by (rule pending_armed_fields) (rule close_fields)+
next
  case (cloned s rs)
  from cloned.IH show ?case by (rule pending_armed_fields) (rule clone_fields)+
next
  case (evaluated s rs)
  from evaluated.IH show ?case by (rule pending_armed_fields) (rule eval_fields)+
qed

subsection \<open>The request that a timer has captured\<close>

lemma timer_sent_send:
  assumes "timer_sent lc s"
  shows "timer_sent lc (send lc s i m)"
  using assms by (auto simp: timer_sent_def send_def)

lemma timer_sent_fewer:
  assumes "timer_sent lc s"
    and "\<And>j x. timers s' j = Some x \<Longrightarrow> timers s j = Some x"
    and "written s' = written s"
  shows "timer_sent lc s'"
  using assms unfolding timer_sent_def by metis

lemma timers_timeout_fired:
  "timers (timeout_fired s i) j = Some x \<Longrightarrow> timers s j = Some x"
  by (auto simp: timeout_fired_def split: option.splits prod.splits if_splits)

lemma written_timeout_fired: "written (timeout_fired s i) = written s"
  by (simp add: timeout_fired_def split: option.splits prod.splits)

lemma timers_response:
  "timers (handleData_response s r) j = Some x \<Longrightarrow> timers s j = Some x"
  by (auto simp: handleData_response_def callback_def Let_def split: option.splits if_splits)

lemma written_response: "written (handleData_response s r) = written s"
  by (simp add: handleData_response_def callback_def Let_def split: option.splits)

lemma written_fields:
  "written (on_connect s) = written s" "written (on_error s msg) = written s"
  "written (on_close s) = written s" "written (fst (clone_result s rs)) = written s"
  "written (fst (eval_result s rs)) = written s"
  by (simp_all add: on_connect_def on_error_def on_close_def clone_result_def eval_result_def
      Let_def split: list.splits)

lemma timers_fields:
  "timers (on_connect s) j = Some x \<Longrightarrow> timers s j = Some x"
  "timers (on_error s msg) j = Some x \<Longrightarrow> timers s j = Some x"
  "timers (on_close s) j = Some x \<Longrightarrow> timers s j = Some x"
  "timers (fst (clone_result s rs)) j = Some x \<Longrightarrow> timers s j = Some x"
  "timers (fst (eval_result s rs)) j = Some x \<Longrightarrow> timers s j = Some x"
  by (simp_all only: connect_fields error_fields close_fields clone_fields eval_fields)

lemma reachable_timer_sent: "reachable lc s \<Longrightarrow> timer_sent lc s"
proof (induction rule: reachable.induct)
  case start
  show ?case by (simp add: timer_sent_def new_client_def)
next
  case (sent s i m)
  from sent.IH show ?case by (rule timer_sent_send)
next
  case (received s r)
  from received.IH show ?case
    by (rule timer_sent_fewer) (erule timers_response, rule written_response)
next
  case (deadline s i)
  from deadline.IH show ?case
    by (rule timer_sent_fewer) (erule timers_timeout_fired, rule written_timeout_fired)
next
  case (socket_connect s)
  from socket_connect.IH show ?case
    by (rule timer_sent_fewer) (erule timers_fields, rule written_fields)
next
  case (socket_error s msg)
  from socket_error.IH show ?case
    by (rule timer_sent_fewer) (erule timers_fields, rule written_fields)
next
  case (socket_close s)
  from socket_close.IH show ?case
    by (rule timer_sent_fewer) (erule timers_fields, rule written_fields)
next
  case (cloned s rs)
  from cloned.IH show ?case
    by (rule timer_sent_fewer) (erule timers_fields, rule written_fields)
next
  case (evaluated s rs)
  from evaluated.IH show ?case
    by (rule timer_sent_fewer) (erule timers_fields, rule written_fields)
qed

subsection \<open>The close and error handlers\<close>

lemma on_close_state:
  "on_close s
     = s\<lparr> connected := False,
          lastError := (if lastError s = None \<or> lastError s = Some (Error [])
                        then Some (Error (js ''Connection closed'')) else lastError s) \<rparr>"
  by (simp add: on_close_def Let_def)

section \<open>The claims\<close>

subsection \<open>C1: round trip\<close>

text \<open>
  C1. The claim is that decoding the encoding of any value of the data model yields a
  value equal to the original. The decoder stores every entry of a map with
  \<^verbatim>\<open>result[key] = value\<close>, and for the key \<^verbatim>\<open>__proto__\<close> that assignment adds no
  entry: the map with the single entry \<^verbatim>\<open>__proto__\<close> \<open>\<mapsto>\<close> 1 is encoded in 16 code
  units and decoded as the empty map. For every other value of the data model the
  round trip holds (\<open>roundtrip_plain_keys\<close>).
\<close>

theorem C1_proto_key_lost:
  "encode lc (BDict [(js ''__proto__'', BNumber (Num 1))]) = js ''d9:__proto__i1ee''
   \<and> decode (encode lc (BDict [(js ''__proto__'', BNumber (Num 1))])) = Some (Inr (BDict [], 16))
   \<and> \<not> deep_equal (BDict []) (BDict [(js ''__proto__'', BNumber (Num 1))])"
proof (intro conjI)
  show e: "encode lc (BDict [(js ''__proto__'', BNumber (Num 1))]) = js ''d9:__proto__i1ee''"
    by (simp add: codec_eval)
  show "decode (encode lc (BDict [(js ''__proto__'', BNumber (Num 1))])) = Some (Inr (BDict [], 16))"
    unfolding e by (simp add: codec_eval obj_set_def)
  show "\<not> deep_equal (BDict []) (BDict [(js ''__proto__'', BNumber (Num 1))])"
    using fmap_of_list_nonempty by (simp add: deep_equal_def)
qed

subsection \<open>C2: truncated strings\<close>

text \<open>
  C2. The claim is that a string whose declared byte length exceeds the remaining data
  makes the decoder fail with \<^verbatim>\<open>String length exceeds data\<close>. The loop of
  \<^verbatim>\<open>decodeString\<close> stops at the end of the data, so the test \<^verbatim>\<open>end > data.length\<close>
  after it is never true: on \<^verbatim>\<open>5:hel\<close> the decoder returns the three code units
  that are there and reports five consumed, and no input at all makes
  \<^verbatim>\<open>decodeString\<close> raise that error.
\<close>

theorem C2_truncated_string_accepted:
  "decode (js ''5:hel'') = Some (Inr (BString (js ''hel''), 5))
   \<and> (\<forall>d pos. decodeString d pos \<noteq> Inl StringLengthExceedsData)"
proof
  show "decode (js ''5:hel'') = Some (Inr (BString (js ''hel''), 5))"
    by (simp add: codec_eval)
  show "\<forall>d pos. decodeString d pos \<noteq> Inl StringLengthExceedsData"
    by (simp add: decodeString_never_exceeds)
qed

subsection \<open>C3: byte length of a text\<close>

text \<open>
  C3. The claim is that the length prefix is the UTF-8 byte count of the text also for
  characters outside the Basic Multilingual Plane. Such a character is two code units,
  \<^verbatim>\<open>getUTF8ByteLength\<close> counts three bytes for each of them, and its four-byte
  branch is never taken: for U+1F600 (code units D83D, DE00) the prefix is 6 while the
  UTF-8 form has 4 bytes. In the other direction, a text of two such characters with the
  correct prefix 8 is cut after three of its four code units.
\<close>

theorem C3_surrogate_pair_counted_as_six:
  "getUTF8ByteLength [0xD83D, 0xDE00] = 6
   \<and> utf8_byte_count [0xD83D, 0xDE00] = 4
   \<and> encode lc (BString [0xD83D, 0xDE00]) = js ''6:'' @ [0xD83D, 0xDE00]
   \<and> utf8_byte_count [0xD83D, 0xDE00, 0xD83D, 0xDE00] = 8
   \<and> decode (js ''8:'' @ [0xD83D, 0xDE00, 0xD83D, 0xDE00])
       = Some (Inr (BString [0xD83D, 0xDE00, 0xD83D], 5))"
  by (simp add: codec_eval)

subsection \<open>C4: keys are emitted in sorted order\<close>

text \<open>
  C4, as stated, fails. The encoder sorts the entries with the platform's
  \<^verbatim>\<open>localeCompare\<close>, which is a collation and not the lexicographic order of the code
  units: in the map with the keys \<^verbatim>\<open>B\<close> and \<^verbatim>\<open>a\<close> the entry \<^verbatim>\<open>a\<close> is emitted
  first, although \<^verbatim>\<open>B\<close> is the smaller text. And the collation reports canonically
  equivalent keys as equal, which the stable sort leaves in insertion order: the two
  maps with the entries 00E9 \<open>\<mapsto>\<close> 1 and 0065 0301 \<open>\<mapsto>\<close> 2, inserted in the two possible
  orders, have the same entries and different encodings.
\<close>

theorem C4_collation_order_and_ties:
  "encode locale_compare (BDict [(js ''B'', BNumber (Num 1)), (js ''a'', BNumber (Num 2))])
     = js ''d1:ai2e1:Bi1ee''
   \<and> compare_units (js ''B'') (js ''a'') < 0
   \<and> locale_compare [0xE9] [0x65, 0x301] = 0
   \<and> set [([0xE9] :: jsstring, BNumber (Num 1)), ([0x65, 0x301], BNumber (Num 2))]
       = set [([0x65, 0x301], BNumber (Num 2)), ([0xE9], BNumber (Num 1))]
   \<and> encode locale_compare (BDict [([0xE9], BNumber (Num 1)), ([0x65, 0x301], BNumber (Num 2))])
       = js ''d2:'' @ [0xE9] @ js ''i1e3:'' @ [0x65, 0x301] @ js ''i2ee''
   \<and> encode locale_compare (BDict [([0x65, 0x301], BNumber (Num 2)), ([0xE9], BNumber (Num 1))])
       = js ''d3:'' @ [0x65, 0x301] @ js ''i2e2:'' @ [0xE9] @ js ''i1ee''
   \<and> encode locale_compare (BDict [([0xE9], BNumber (Num 1)), ([0x65, 0x301], BNumber (Num 2))])
       \<noteq> encode locale_compare (BDict [([0x65, 0x301], BNumber (Num 2)), ([0xE9], BNumber (Num 1))])"
proof -
  have o: "encode locale_compare (BDict [(js ''B'', BNumber (Num 1)), (js ''a'', BNumber (Num 2))])
     = js ''d1:ai2e1:Bi1ee''"
    by (simp add: codec_eval locale_compare_def canonical_form_def decompose_def is_mark_def
        to_lower_def)
  have u: "compare_units (js ''B'') (js ''a'') < 0" by (simp add: js_def)
  have t: "locale_compare [0xE9] [0x65, 0x301] = 0"
    by (simp add: locale_compare_def canonical_form_def decompose_def is_mark_def to_lower_def)
  have s: "set [([0xE9] :: jsstring, BNumber (Num 1)), ([0x65, 0x301], BNumber (Num 2))]
       = set [([0x65, 0x301], BNumber (Num 2)), ([0xE9], BNumber (Num 1))]"
    by auto
  have e1: "encode locale_compare (BDict [([0xE9], BNumber (Num 1)), ([0x65, 0x301], BNumber (Num 2))])
       = js ''d2:'' @ [0xE9] @ js ''i1e3:'' @ [0x65, 0x301] @ js ''i2ee''"
    by (simp add: codec_eval locale_compare_def canonical_form_def decompose_def is_mark_def
        to_lower_def)
  have e2: "encode locale_compare (BDict [([0x65, 0x301], BNumber (Num 2)), ([0xE9], BNumber (Num 1))])
       = js ''d3:'' @ [0x65, 0x301] @ js ''i2e2:'' @ [0xE9] @ js ''i1ee''"
    by (simp add: codec_eval locale_compare_def canonical_form_def decompose_def is_mark_def
        to_lower_def)
  have ne: "encode locale_compare (BDict [([0xE9], BNumber (Num 1)), ([0x65, 0x301], BNumber (Num 2))])
       \<noteq> encode locale_compare (BDict [([0x65, 0x301], BNumber (Num 2)), ([0xE9], BNumber (Num 1))])"
    unfolding e1 e2 by (simp add: js_def)
  from o u t s e1 e2 ne show ?thesis by (intro conjI)
qed

text \<open>
  C4 as amended. The encoder emits the entries of a map in ascending order of key under
  the comparison it is given, the platform's \<^verbatim>\<open>localeCompare\<close>, whatever the
  insertion order. When that comparison is consistent on the keys of the map and of
  every map nested in it (any two keys are comparable, two different keys never compare
  as equal, and the order is transitive), two maps with the same entries, nested maps
  compared in the same way, have the same encoding. When \<^verbatim>\<open>id\<close> sorts before
  \<^verbatim>\<open>op\<close> the request \<^verbatim>\<open>{id: "a1", op: "clone"}\<close> encodes to
  \<^verbatim>\<open>d2:id2:a12:op5:clonee\<close>, in both insertion orders.
\<close>

theorem C4_sorted_by_comparison:
  assumes "wf_value (BDict ps)" and "wf_value (BDict qs)"
    and "deep_equal (BDict ps) (BDict qs)" and "keys_consistent lc (BDict ps)"
  shows "encode lc (BDict ps) = encode lc (BDict qs)
       \<and> (\<exists>es. encode lc (BDict ps)
                  = of_char CHR ''d''
                      # concat (map (\<lambda>(k, v). encode lc (BString k) @ encode lc v) es)
                      @ [of_char CHR ''e'']
                \<and> set es = set ps \<and> length es = length ps
                \<and> sorted_wrt (\<lambda>a b. lc (fst a) (fst b) \<le> 0) es)
       \<and> (lc (js ''id'') (js ''op'') \<le> 0 \<longrightarrow>
            encode lc (BDict [(js ''id'', BString (js ''a1'')), (js ''op'', BString (js ''clone''))])
              = js ''d2:id2:a12:op5:clonee'')
       \<and> (lc (js ''id'') (js ''op'') \<le> 0 \<and> 0 < lc (js ''op'') (js ''id'') \<longrightarrow>
            encode lc (BDict [(js ''op'', BString (js ''clone'')), (js ''id'', BString (js ''a1''))])
              = js ''d2:id2:a12:op5:clonee'')"
proof (intro conjI impI)
  show "encode lc (BDict ps) = encode lc (BDict qs)"
    using assms unfolding deep_equal_def by (rule encode_order_free)
  have c: "consistent_on lc (fst ` set ps)" using assms(4) by simp
  have "sorted_wrt (key_le lc) (sort_entries lc ps)"
    using c by (rule sorted_sort_entries) simp
  then have "sorted_wrt (\<lambda>a b. lc (fst a) (fst b) \<le> 0) (sort_entries lc ps)"
    by (simp add: key_le_def [abs_def])
  then show "\<exists>es. encode lc (BDict ps)
                  = of_char CHR ''d''
                      # concat (map (\<lambda>(k, v). encode lc (BString k) @ encode lc v) es)
                      @ [of_char CHR ''e'']
                \<and> set es = set ps \<and> length es = length ps
                \<and> sorted_wrt (\<lambda>a b. lc (fst a) (fst b) \<le> 0) es"
    by (intro exI [of _ "sort_entries lc ps"]) (simp add: set_sort_entries length_sort_entries)
next
  assume "lc (js ''id'') (js ''op'') \<le> 0"
  then show "encode lc (BDict [(js ''id'', BString (js ''a1'')), (js ''op'', BString (js ''clone''))])
              = js ''d2:id2:a12:op5:clonee''"
    by (simp add: codec_eval)
next
  assume "lc (js ''id'') (js ''op'') \<le> 0 \<and> 0 < lc (js ''op'') (js ''id'')"
  then show "encode lc (BDict [(js ''op'', BString (js ''clone'')), (js ''id'', BString (js ''a1''))])
              = js ''d2:id2:a12:op5:clonee''"
    by (simp add: codec_eval)
qed

text \<open>
  C4 as amended, at a request whose \<^verbatim>\<open>id\<close> entry holds a map, with the entries of
  both maps inserted in the two possible orders.
\<close>

theorem C4_sorted_by_comparison_witness:
  "wf_value (BDict [(js ''op'', BString (js ''clone'')),
                    (js ''id'', BDict [(js ''b'', BNumber (Num 1)), (js ''a'', BNumber (Num 2))])])
   \<and> wf_value (BDict [(js ''id'', BDict [(js ''a'', BNumber (Num 2)), (js ''b'', BNumber (Num 1))]),
                      (js ''op'', BString (js ''clone''))])
   \<and> deep_equal
        (BDict [(js ''op'', BString (js ''clone'')),
                (js ''id'', BDict [(js ''b'', BNumber (Num 1)), (js ''a'', BNumber (Num 2))])])
        (BDict [(js ''id'', BDict [(js ''a'', BNumber (Num 2)), (js ''b'', BNumber (Num 1))]),
                (js ''op'', BString (js ''clone''))])
   \<and> keys_consistent locale_compare
        (BDict [(js ''op'', BString (js ''clone'')),
                (js ''id'', BDict [(js ''b'', BNumber (Num 1)), (js ''a'', BNumber (Num 2))])])
   \<and> locale_compare (js ''id'') (js ''op'') \<le> 0 \<and> 0 < locale_compare (js ''op'') (js ''id'')
   \<and> encode locale_compare
        (BDict [(js ''op'', BString (js ''clone'')),
                (js ''id'', BDict [(js ''b'', BNumber (Num 1)), (js ''a'', BNumber (Num 2))])])
       = encode locale_compare
        (BDict [(js ''id'', BDict [(js ''a'', BNumber (Num 2)), (js ''b'', BNumber (Num 1))]),
                (js ''op'', BString (js ''clone''))])
   \<and> encode locale_compare
        (BDict [(js ''op'', BString (js ''clone'')), (js ''id'', BString (js ''a1''))])
       = js ''d2:id2:a12:op5:clonee''
   \<and> encode locale_compare
        (BDict [(js ''id'', BString (js ''a1'')), (js ''op'', BString (js ''clone''))])
       = js ''d2:id2:a12:op5:clonee''"
proof -
  let ?ps = "[(js ''op'', BString (js ''clone'')),
              (js ''id'', BDict [(js ''b'', BNumber (Num 1)), (js ''a'', BNumber (Num 2))])]"
  let ?qs = "[(js ''id'', BDict [(js ''a'', BNumber (Num 2)), (js ''b'', BNumber (Num 1))]),
              (js ''op'', BString (js ''clone''))]"
  have wp: "wf_value (BDict ?ps)" by (simp add: js_def)
  have wq: "wf_value (BDict ?qs)" by (simp add: js_def)
  have ne1: "js ''b'' \<noteq> js ''a''" by (simp add: js_def)
  have ne2: "js ''op'' \<noteq> js ''id''" by (simp add: js_def)
  have "denote (BDict ?ps)
        = DDict (fmap_of_list [(js ''op'', DString (js ''clone'')),
            (js ''id'', DDict (fmap_of_list [(js ''b'', DNumber (Num 1)), (js ''a'', DNumber (Num 2))]))])"
    by (simp only: denote.simps list.map map_prod_simp id_apply)
  also have "\<dots> = DDict (fmap_of_list [(js ''op'', DString (js ''clone'')),
            (js ''id'', DDict (fmap_of_list [(js ''a'', DNumber (Num 2)), (js ''b'', DNumber (Num 1))]))])"
    by (simp only: fmap_of_list_swap [OF ne1])
  also have "\<dots> = DDict (fmap_of_list [
            (js ''id'', DDict (fmap_of_list [(js ''a'', DNumber (Num 2)), (js ''b'', DNumber (Num 1))])),
            (js ''op'', DString (js ''clone''))])"
    by (simp only: fmap_of_list_swap [OF ne2])
  also have "\<dots> = denote (BDict ?qs)"
    by (simp only: denote.simps list.map map_prod_simp id_apply)
  finally have de: "deep_equal (BDict ?ps) (BDict ?qs)"
    unfolding deep_equal_def .
  have kc: "keys_consistent locale_compare (BDict ?ps)"
    by (simp add: consistent_on_def js_def locale_compare_def canonical_form_def decompose_def
        is_mark_def to_lower_def)
  have le: "locale_compare (js ''id'') (js ''op'') \<le> 0"
    by (simp add: js_def locale_compare_def canonical_form_def decompose_def is_mark_def
        to_lower_def)
  have gt: "0 < locale_compare (js ''op'') (js ''id'')"
    by (simp add: js_def locale_compare_def canonical_form_def decompose_def is_mark_def
        to_lower_def)
  note r = C4_sorted_by_comparison [OF wp wq de kc]
  have r1: "encode locale_compare (BDict ?ps) = encode locale_compare (BDict ?qs)"
    using r by (rule conjunct1)
  have r3: "encode locale_compare
        (BDict [(js ''id'', BString (js ''a1'')), (js ''op'', BString (js ''clone''))])
       = js ''d2:id2:a12:op5:clonee''"
    by (rule mp [OF r [THEN conjunct2, THEN conjunct2, THEN conjunct1] le])
  have r4: "encode locale_compare
        (BDict [(js ''op'', BString (js ''clone'')), (js ''id'', BString (js ''a1''))])
       = js ''d2:id2:a12:op5:clonee''"
    by (rule mp [OF r [THEN conjunct2, THEN conjunct2, THEN conjunct2] conjI [OF le gt]])
  from wp wq de kc le gt r1 r4 r3 show ?thesis by (intro conjI)
qed

subsection \<open>C5: the result of an evaluation\<close>

text \<open>
  C5, as stated, fails for an error field that is present but empty: the response below
  carries the field \<^verbatim>\<open>ex\<close>, and the call returns the output \<^verbatim>\<open>42\<close>.
\<close>

theorem C5_empty_error_field_ignored:
  "r_ex (no_fields\<lparr>r_id := Some (js ''x''), r_value := Some (js ''42''), r_ex := Some [],
                    r_status := Some [js ''done'']\<rparr>) = Some []
   \<and> eval_result new_client
        [no_fields\<lparr>r_id := Some (js ''x''), r_value := Some (js ''42''), r_ex := Some [],
                    r_status := Some [js ''done'']\<rparr>]
       = (new_client, Inr (js ''42''))"
  by (simp add: eval_result_def no_fields_def truthy_def or_else_def js_def)

text \<open>
  C5 as amended. Take from each response the first of \<^verbatim>\<open>ex\<close>, \<^verbatim>\<open>root-ex\<close>,
  \<^verbatim>\<open>err\<close> that is present and not empty. If there is any, the call fails with an
  error whose message joins them in arrival order with newlines (and records it as the
  last error); otherwise it returns, joined in arrival order with newlines, the first of
  \<^verbatim>\<open>value\<close>, \<^verbatim>\<open>out\<close> that is present and not empty in each response. The two
  concrete cases of the claim follow.
\<close>

theorem C5_eval_result:
  "eval_result s rs =
     (let errs = List.map_filter (\<lambda>r. first_nonempty [r_ex r, r_root_ex r, r_err r]) rs;
          outs = List.map_filter (\<lambda>r. first_nonempty [r_value r, r_out r]) rs
      in if errs \<noteq> []
         then (s\<lparr>lastError := Some (Error (join [0x0A] errs))\<rparr>, Inl (Error (join [0x0A] errs)))
         else (s, Inr (join [0x0A] outs)))
   \<and> eval_result s [no_fields\<lparr>r_id := Some (js ''x''), r_value := Some (js ''42'')\<rparr>,
                     no_fields\<lparr>r_id := Some (js ''x''), r_status := Some [js ''done'']\<rparr>]
       = (s, Inr (js ''42''))
   \<and> snd (eval_result s [no_fields\<lparr>r_id := Some (js ''x''), r_out := Some (js ''hi'')\<rparr>,
                          no_fields\<lparr>r_id := Some (js ''x''), r_ex := Some (js ''boom''),
                                     r_status := Some [js ''done'']\<rparr>])
       = Inl (Error (js ''boom''))"
proof (intro conjI)
  have e: "List.map_filter (\<lambda>r. first_nonempty [r_ex r, r_root_ex r, r_err r]) rs
           = map the (filter truthy (map (\<lambda>r. or_else (or_else (r_ex r) (r_root_ex r)) (r_err r)) rs))"
    by (rule map_filter_truthy) (rule or_else_first3)
  have o: "List.map_filter (\<lambda>r. first_nonempty [r_value r, r_out r]) rs
           = map the (filter truthy (map (\<lambda>r. or_else (r_value r) (r_out r)) rs))"
    by (rule map_filter_truthy) (rule or_else_first2)
  show "eval_result s rs =
     (let errs = List.map_filter (\<lambda>r. first_nonempty [r_ex r, r_root_ex r, r_err r]) rs;
          outs = List.map_filter (\<lambda>r. first_nonempty [r_value r, r_out r]) rs
      in if errs \<noteq> []
         then (s\<lparr>lastError := Some (Error (join [0x0A] errs))\<rparr>, Inl (Error (join [0x0A] errs)))
         else (s, Inr (join [0x0A] outs)))"
    unfolding e o by (simp add: eval_result_def Let_def)
  show "eval_result s [no_fields\<lparr>r_id := Some (js ''x''), r_value := Some (js ''42'')\<rparr>,
                     no_fields\<lparr>r_id := Some (js ''x''), r_status := Some [js ''done'']\<rparr>]
       = (s, Inr (js ''42''))"
    by (simp add: eval_result_def no_fields_def truthy_def or_else_def js_def)
  show "snd (eval_result s [no_fields\<lparr>r_id := Some (js ''x''), r_out := Some (js ''hi'')\<rparr>,
                          no_fields\<lparr>r_id := Some (js ''x''), r_ex := Some (js ''boom''),
                                     r_status := Some [js ''done'']\<rparr>])
       = Inl (Error (js ''boom''))"
    by (simp add: eval_result_def no_fields_def truthy_def or_else_def js_def Let_def)
qed

subsection \<open>C6: socket close and error\<close>

text \<open>
  C6, as stated, fails: after a request is sent, a close or an error event of the
  socket leaves its promise pending and its callback registered.
\<close>

theorem C6_close_leaves_request_pending:
  "promises (on_close
      (send compare_units new_client (js ''r1'') \<lparr>m_op = js ''clone'', m_code = None, m_session = None\<rparr>))
      (js ''r1'') = Some Pending
   \<and> messageCallbacks (on_close
       (send compare_units new_client (js ''r1'') \<lparr>m_op = js ''clone'', m_code = None, m_session = None\<rparr>))
       (js ''r1'') = Some []
   \<and> promises (on_error
       (send compare_units new_client (js ''r1'') \<lparr>m_op = js ''clone'', m_code = None, m_session = None\<rparr>)
       (js ''ECONNRESET'')) (js ''r1'') = Some Pending"
  by (simp add: close_fields error_fields send_def)

text \<open>
  C6 as amended. The close and error handlers only mark the client disconnected and
  record an error text: the error handler always records the text of the error, the
  close handler records \<^verbatim>\<open>Connection closed\<close> when no error text is recorded yet
  and otherwise leaves the recorded error as it is. Nothing else changes: the table of
  callbacks, the promises and the timers are as before. A request that is pending at
  such an event stays pending with its timer of 30000 ms armed, and it is failed with
  the timeout error when that timer fires.
\<close>

theorem C6_close_only_marks_disconnected:
  assumes "reachable lc s" and "promises s i = Some Pending"
  shows "on_close s
           = s\<lparr> connected := False,
                lastError := (if lastError s = None \<or> lastError s = Some (Error [])
                              then Some (Error (js ''Connection closed'')) else lastError s) \<rparr>
       \<and> on_error s msg = s\<lparr> connected := False, lastError := Some (Error msg) \<rparr>
       \<and> messageCallbacks (on_close s) = messageCallbacks s
       \<and> promises (on_close s) = promises s
       \<and> timers (on_close s) = timers s
       \<and> messageCallbacks (on_error s msg) = messageCallbacks s
       \<and> promises (on_error s msg) = promises s
       \<and> timers (on_error s msg) = timers s
       \<and> promises (on_close s) i = Some Pending
       \<and> promises (on_error s msg) i = Some Pending
       \<and> (\<exists>m. timers s i = Some (30000, m)
              \<and> timers (on_close s) i = Some (30000, m)
              \<and> timers (on_error s msg) i = Some (30000, m)
              \<and> promises (timeout_fired (on_close s) i) i = Some (Rejected (TimeoutError m))
              \<and> promises (timeout_fired (on_error s msg) i) i = Some (Rejected (TimeoutError m)))"
proof -
  have "pending_armed s" using assms(1) by (rule reachable_pending_armed)
  with assms(2) obtain m where t: "timers s i = Some (30000, m)"
    unfolding pending_armed_def by blast
  have pc: "promises (on_close s) i = Some Pending" using assms(2) by (simp add: close_fields)
  have pe: "promises (on_error s msg) i = Some Pending" using assms(2) by (simp add: error_fields)
  have tc: "timers (on_close s) i = Some (30000, m)" using t by (simp add: close_fields)
  have te: "timers (on_error s msg) i = Some (30000, m)" using t by (simp add: error_fields)
  note ec = timeout_fired_effect(1) [OF tc pc]
  note ee = timeout_fired_effect(1) [OF te pe]
  have ex: "\<exists>m. timers s i = Some (30000, m)
              \<and> timers (on_close s) i = Some (30000, m)
              \<and> timers (on_error s msg) i = Some (30000, m)
              \<and> promises (timeout_fired (on_close s) i) i = Some (Rejected (TimeoutError m))
              \<and> promises (timeout_fired (on_error s msg) i) i = Some (Rejected (TimeoutError m))"
    using t tc te ec ee by (intro exI [of _ m] conjI)
  have c: "on_close s
           = s\<lparr> connected := False,
                lastError := (if lastError s = None \<or> lastError s = Some (Error [])
                              then Some (Error (js ''Connection closed'')) else lastError s) \<rparr>"
    by (rule on_close_state)
  have e: "on_error s msg = s\<lparr> connected := False, lastError := Some (Error msg) \<rparr>"
    by (rule on_error_def)
  note fc = close_fields(3) [of s] close_fields(2) [of s] close_fields(1) [of s]
  note fe = error_fields(3) [of s msg] error_fields(2) [of s msg] error_fields(1) [of s msg]
  from c e fc fe pc pe ex show ?thesis by (intro conjI)
qed

text \<open>
  C6 as amended, at a client that has sent one clone request.
\<close>

theorem C6_close_only_marks_disconnected_witness:
  "reachable compare_units
     (send compare_units new_client (js ''r1'') \<lparr>m_op = js ''clone'', m_code = None, m_session = None\<rparr>)
   \<and> promises (send compare_units new_client (js ''r1'') \<lparr>m_op = js ''clone'', m_code = None, m_session = None\<rparr>)
        (js ''r1'') = Some Pending
   \<and> lastError (on_close
         (send compare_units new_client (js ''r1'') \<lparr>m_op = js ''clone'', m_code = None, m_session = None\<rparr>))
       = Some (Error (js ''Connection closed''))
   \<and> promises (on_close
         (send compare_units new_client (js ''r1'') \<lparr>m_op = js ''clone'', m_code = None, m_session = None\<rparr>))
        (js ''r1'') = Some Pending
   \<and> (\<exists>m. timers (on_close
         (send compare_units new_client (js ''r1'') \<lparr>m_op = js ''clone'', m_code = None, m_session = None\<rparr>))
          (js ''r1'') = Some (30000, m)
        \<and> promises (timeout_fired (on_close
         (send compare_units new_client (js ''r1'') \<lparr>m_op = js ''clone'', m_code = None, m_session = None\<rparr>))
         (js ''r1'')) (js ''r1'') = Some (Rejected (TimeoutError m)))"
proof -
  let ?m = "\<lparr>m_op = js ''clone'', m_code = None, m_session = None\<rparr>"
  let ?s = "send compare_units new_client (js ''r1'') ?m"
  have r: "reachable compare_units ?s"
    by (intro reachable.sent reachable.start) (simp_all add: new_client_def)
  have p: "promises ?s (js ''r1'') = Some Pending"
    by (simp add: send_def)
  have l: "lastError ?s = None" by (simp add: send_def new_client_def)
  note c = C6_close_only_marks_disconnected [OF r p, of undefined]
  have c0: "lastError (on_close ?s) = Some (Error (js ''Connection closed''))"
    using c [THEN conjunct1] l by simp
  have c1: "promises (on_close ?s) (js ''r1'') = Some Pending"
    using c by (elim conjE)
  from c obtain m where "timers (on_close ?s) (js ''r1'') = Some (30000, m)"
    and "promises (timeout_fired (on_close ?s) (js ''r1'')) (js ''r1'') = Some (Rejected (TimeoutError m))"
    by (elim conjE exE)
  then have c2: "\<exists>m. timers (on_close ?s) (js ''r1'') = Some (30000, m)
        \<and> promises (timeout_fired (on_close ?s) (js ''r1'')) (js ''r1'') = Some (Rejected (TimeoutError m))"
    by (intro exI conjI)
  from r p c0 c1 c2 show ?thesis by (intro conjI)
qed

subsection \<open>C7: establishing a session\<close>

text \<open>
  C7, as stated, fails: when the only \<^verbatim>\<open>new-session\<close> field is in the second
  accumulated response, the call fails and the session id stays as it was.
\<close>

theorem C7_new_session_in_second_response:
  "r_new_session (no_fields\<lparr>r_id := Some (js ''x''), r_out := Some (js ''hello'')\<rparr>) = None
   \<and> r_new_session (no_fields\<lparr>r_id := Some (js ''x''), r_new_session := Some (js ''s1''),
                                r_status := Some [js ''done'']\<rparr>) = Some (js ''s1'')
   \<and> clone_result new_client
        [no_fields\<lparr>r_id := Some (js ''x''), r_out := Some (js ''hello'')\<rparr>,
         no_fields\<lparr>r_id := Some (js ''x''), r_new_session := Some (js ''s1''),
                    r_status := Some [js ''done'']\<rparr>]
       = (new_client, Inl (Error (js ''Failed to create new session'')))"
  by (simp add: clone_result_def no_fields_def truthy_def)

text \<open>
  C7 as amended. Only the first accumulated response is read. The call succeeds exactly
  when that response has a \<^verbatim>\<open>new-session\<close> field that is not empty; it then
  returns that id and replaces the session id with it. Otherwise it fails with
  \<^verbatim>\<open>Failed to create new session\<close> and the client is unchanged.
\<close>

theorem C7_clone_reads_first_response:
  "clone_result s (r # rs) = clone_result s [r]
   \<and> ((\<exists>ns. snd (clone_result s (r # rs)) = Inr ns) \<longleftrightarrow> truthy (r_new_session r))
   \<and> (truthy (r_new_session r) \<longrightarrow>
        clone_result s (r # rs) = (s\<lparr>sessionId := r_new_session r\<rparr>, Inr (the (r_new_session r))))
   \<and> (\<not> truthy (r_new_session r) \<longrightarrow>
        clone_result s (r # rs) = (s, Inl (Error (js ''Failed to create new session''))))"
  by (simp add: clone_result_def Let_def)

text \<open>
  C7 as amended, at a response with a session id and at one without.
\<close>

theorem C7_clone_reads_first_response_witness:
  "truthy (r_new_session (no_fields\<lparr>r_new_session := Some (js ''s1''), r_status := Some [js ''done'']\<rparr>))
   \<and> clone_result new_client [no_fields\<lparr>r_new_session := Some (js ''s1''), r_status := Some [js ''done'']\<rparr>]
       = (new_client\<lparr>sessionId := Some (js ''s1'')\<rparr>, Inr (js ''s1''))
   \<and> \<not> truthy (r_new_session (no_fields\<lparr>r_status := Some [js ''done'']\<rparr>))
   \<and> clone_result new_client [no_fields\<lparr>r_status := Some [js ''done'']\<rparr>]
       = (new_client, Inl (Error (js ''Failed to create new session'')))"
proof -
  let ?r1 = "no_fields\<lparr>r_new_session := Some (js ''s1''), r_status := Some [js ''done'']\<rparr>"
  let ?r2 = "no_fields\<lparr>r_status := Some [js ''done'']\<rparr>"
  have t1: "truthy (r_new_session ?r1)" by (simp add: truthy_def js_def)
  have t2: "\<not> truthy (r_new_session ?r2)" by (simp add: truthy_def no_fields_def)
  have ns: "r_new_session ?r1 = Some (js ''s1'')" by simp
  note a = C7_clone_reads_first_response [of new_client ?r1 "[]"]
  note b = C7_clone_reads_first_response [of new_client ?r2 "[]"]
  have a3: "clone_result new_client [?r1] = (new_client\<lparr>sessionId := Some (js ''s1'')\<rparr>, Inr (js ''s1''))"
    using a t1 ns by simp
  have b4: "clone_result new_client [?r2] = (new_client, Inl (Error (js ''Failed to create new session'')))"
    using b t2 by simp
  from t1 a3 t2 b4 show ?thesis by (intro conjI)
qed

subsection \<open>C8: request timeout\<close>

text \<open>
  C8. In every reachable state, a request that is pending (sent, and neither completed
  by a terminal response nor timed out) has its timer armed with the 30000 ms that
  \<^verbatim>\<open>send\<close> gave it, the timer holds a request that was written to the socket under
  the id of the pending request, and the callback of the request is registered. When
  the timer fires the request fails with the timeout error that carries that request,
  its callback is removed, and a response that arrives later with its id leaves the
  client unchanged. \<^verbatim>\<open>send\<close> arms the timer with 30000 ms and the request it is
  given.
\<close>

theorem C8_timeout:
  assumes "reachable lc s" and "promises s i = Some Pending"
  shows "(\<exists>m. timers s i = Some (30000, m)
            \<and> encode lc (message_value m i) \<in> set (written s)
            \<and> promises (timeout_fired s i) i = Some (Rejected (TimeoutError m))
            \<and> lastError (timeout_fired s i) = Some (TimeoutError m))
       \<and> messageCallbacks s i \<noteq> None
       \<and> messageCallbacks (timeout_fired s i) i = None
       \<and> timers (timeout_fired s i) i = None
       \<and> (\<forall>r. r_id r = Some i \<longrightarrow> handleData_response (timeout_fired s i) r = timeout_fired s i)
       \<and> timers (send lc s' j m') j = Some (30000, m')
       \<and> promises (send lc s' j m') j = Some Pending
       \<and> written (send lc s' j m') = written s' @ [encode lc (message_value m' j)]"
proof -
  have "pending_armed s" using assms(1) by (rule reachable_pending_armed)
  with assms(2) obtain m where t: "timers s i = Some (30000, m)"
    unfolding pending_armed_def by blast
  have "timer_sent lc s" using assms(1) by (rule reachable_timer_sent)
  with t have w: "encode lc (message_value m i) \<in> set (written s)"
    unfolding timer_sent_def by blast
  have "armed_pending s" using assms(1) by (rule reachable_armed_pending)
  with t have cb: "messageCallbacks s i \<noteq> None"
    unfolding armed_pending_def by blast
  note e = timeout_fired_effect [OF t assms(2)]
  have ex: "\<exists>m. timers s i = Some (30000, m)
            \<and> encode lc (message_value m i) \<in> set (written s)
            \<and> promises (timeout_fired s i) i = Some (Rejected (TimeoutError m))
            \<and> lastError (timeout_fired s i) = Some (TimeoutError m)"
    using t w e(1) e(4) by (intro exI [of _ m] conjI)
  have late: "\<forall>r. r_id r = Some i \<longrightarrow> handleData_response (timeout_fired s i) r = timeout_fired s i"
    using e(2) by (simp add: response_without_callback)
  have s1: "timers (send lc s' j m') j = Some (30000, m')" by (simp add: send_def)
  have s2: "promises (send lc s' j m') j = Some Pending" by (simp add: send_def)
  have s3: "written (send lc s' j m') = written s' @ [encode lc (message_value m' j)]"
    by (simp add: send_def)
  from ex cb e(2) e(3) late s1 s2 s3 show ?thesis by (intro conjI)
qed

text \<open>
  C8 at a client that has sent one clone request and received a response to it that is
  not terminal.
\<close>

theorem C8_timeout_witness:
  "reachable compare_units
     (handleData_response
        (send compare_units new_client (js ''r1'') \<lparr>m_op = js ''clone'', m_code = None, m_session = None\<rparr>)
        (no_fields\<lparr>r_id := Some (js ''r1''), r_out := Some (js ''x'')\<rparr>))
   \<and> promises
       (handleData_response
          (send compare_units new_client (js ''r1'') \<lparr>m_op = js ''clone'', m_code = None, m_session = None\<rparr>)
          (no_fields\<lparr>r_id := Some (js ''r1''), r_out := Some (js ''x'')\<rparr>))
       (js ''r1'') = Some Pending
   \<and> (\<exists>m. timers
          (handleData_response
             (send compare_units new_client (js ''r1'') \<lparr>m_op = js ''clone'', m_code = None, m_session = None\<rparr>)
             (no_fields\<lparr>r_id := Some (js ''r1''), r_out := Some (js ''x'')\<rparr>))
          (js ''r1'') = Some (30000, m)
        \<and> promises (timeout_fired
          (handleData_response
             (send compare_units new_client (js ''r1'') \<lparr>m_op = js ''clone'', m_code = None, m_session = None\<rparr>)
             (no_fields\<lparr>r_id := Some (js ''r1''), r_out := Some (js ''x'')\<rparr>))
          (js ''r1'')) (js ''r1'') = Some (Rejected (TimeoutError m)))
   \<and> messageCallbacks (timeout_fired
          (handleData_response
             (send compare_units new_client (js ''r1'') \<lparr>m_op = js ''clone'', m_code = None, m_session = None\<rparr>)
             (no_fields\<lparr>r_id := Some (js ''r1''), r_out := Some (js ''x'')\<rparr>))
          (js ''r1'')) (js ''r1'') = None"
proof -
  let ?m = "\<lparr>m_op = js ''clone'', m_code = None, m_session = None\<rparr>"
  let ?r = "no_fields\<lparr>r_id := Some (js ''r1''), r_out := Some (js ''x'')\<rparr>"
  let ?s = "handleData_response (send compare_units new_client (js ''r1'') ?m) ?r"
  have r: "reachable compare_units ?s"
    by (intro reachable.received reachable.sent reachable.start) (simp_all add: new_client_def)
  have p: "promises ?s (js ''r1'') = Some Pending"
    by (simp add: handleData_response_def callback_def includes_done_def no_fields_def send_def
        js_def Let_def)
  note c = C8_timeout [OF r p, of undefined undefined undefined]
  from c obtain m where "timers ?s (js ''r1'') = Some (30000, m)"
    and "promises (timeout_fired ?s (js ''r1'')) (js ''r1'') = Some (Rejected (TimeoutError m))"
    by (elim conjE exE)
  then have c1: "\<exists>m. timers ?s (js ''r1'') = Some (30000, m)
        \<and> promises (timeout_fired ?s (js ''r1'')) (js ''r1'') = Some (Rejected (TimeoutError m))"
    by (intro exI conjI)
  have c2: "messageCallbacks (timeout_fired ?s (js ''r1'')) (js ''r1'') = None"
    using c by (elim conjE)
  from r p c1 c2 show ?thesis by (intro conjI)
qed

subsection \<open>C9: two maps in one buffer\<close>

text \<open>
  C9. The claim is that decoding the concatenation of two encoded maps yields the first
  map, with a consumed length equal to the length of its encoding, and that decoding the
  rest yields the second map. The consumed lengths are as claimed for every two maps, and
  the maps are the ones encoded unless one has the key \<^verbatim>\<open>__proto__\<close>
  (\<open>two_maps_in_one_buffer\<close>); with that key the entry is lost, as in C1: the first
  map below, 15 code units long, is decoded as the empty map. Decoding
  \<^verbatim>\<open>5:hello\<close> yields \<^verbatim>\<open>hello\<close> with consumed length 7.
\<close>

theorem C9_proto_key_lost_in_stream:
  "encode lc (BDict [(js ''__proto__'', BList [])]) = js ''d9:__proto__lee''
   \<and> encode lc (BDict []) = js ''de''
   \<and> decode (js ''d9:__proto__lee'' @ js ''de'') = Some (Inr (BDict [], 15))
   \<and> \<not> deep_equal (BDict []) (BDict [(js ''__proto__'', BList [])])
   \<and> decode (drop 15 (js ''d9:__proto__lee'' @ js ''de'')) = Some (Inr (BDict [], 2))
   \<and> decode (js ''5:hello'') = Some (Inr (BString (js ''hello''), 7))"
proof (intro conjI)
  show "encode lc (BDict [(js ''__proto__'', BList [])]) = js ''d9:__proto__lee''"
    by (simp add: codec_eval)
  show "encode lc (BDict []) = js ''de''"
    by (simp add: codec_eval)
  show "decode (js ''d9:__proto__lee'' @ js ''de'') = Some (Inr (BDict [], 15))"
    by (simp add: codec_eval obj_set_def)
  show "\<not> deep_equal (BDict []) (BDict [(js ''__proto__'', BList [])])"
    using fmap_of_list_nonempty by (simp add: deep_equal_def)
  show "decode (drop 15 (js ''d9:__proto__lee'' @ js ''de'')) = Some (Inr (BDict [], 2))"
    by (simp add: codec_eval)
  show "decode (js ''5:hello'') = Some (Inr (BString (js ''hello''), 7))"
    by (simp add: codec_eval)
qed

subsection \<open>C10: integers are not validated\<close>

text \<open>
  C10. When \<open>s\<close> contains no \<^verbatim>\<open>e\<close>, decoding \<^verbatim>\<open>i\<close> \<open>s\<close> \<^verbatim>\<open>e\<close> succeeds with a
  number, whatever \<open>s\<close> is, and consumes the text up to and including the \<^verbatim>\<open>e\<close>; the
  number is the result of \<^verbatim>\<open>parseInt\<close> on \<open>s\<close>, stated here for the texts whose
  digit run denotes at most \<open>2^53\<close>, on which that result is an integer of the model.
  \<^verbatim>\<open>decodeInteger\<close> fails exactly when no \<^verbatim>\<open>e\<close> follows, and then with
  \<^verbatim>\<open>Unterminated integer\<close>; \<^verbatim>\<open>iXe\<close> yields NaN and \<^verbatim>\<open>i007e\<close> yields 7.
\<close>

theorem C10_integer_digits_not_validated:
  assumes "of_char CHR ''e'' \<notin> set s"
  shows "(\<exists>x. decode (of_char CHR ''i'' # s @ of_char CHR ''e'' # rest)
                = Some (Inr (BNumber x, length s + 2)))
       \<and> (exactly_parsed s \<longrightarrow>
            decode (of_char CHR ''i'' # s @ of_char CHR ''e'' # rest)
              = Some (Inr (BNumber (parseInt s), length s + 2)))
       \<and> ((\<exists>err. decodeInteger d pos = Inl err) \<longleftrightarrow> of_char CHR ''e'' \<notin> set (drop (pos + 1) d))
       \<and> (\<forall>err. decodeInteger d pos = Inl err \<longrightarrow> err = UnterminatedInteger)
       \<and> decode (js ''iXe'') = Some (Inr (BNumber NaN, 3))
       \<and> decode (js ''i007e'') = Some (Inr (BNumber (Num 7), 5))"
proof (intro conjI)
  have "decodeInteger ([] @ of_char CHR ''i'' # s @ of_char CHR ''e'' # rest) (length ([] :: jsstring))
          = Inr (BNumber (parseInt s), length ([] :: jsstring) + length s + 2)"
    using assms by (rule decodeInteger_ok)
  then have v: "decode (of_char CHR ''i'' # s @ of_char CHR ''e'' # rest)
           = Some (Inr (BNumber (parseInt s), length s + 2))"
    by (simp add: decode_def charAt_def)
  then show "\<exists>x. decode (of_char CHR ''i'' # s @ of_char CHR ''e'' # rest)
                = Some (Inr (BNumber x, length s + 2))"
    by (rule exI)
  from v show "exactly_parsed s \<longrightarrow>
            decode (of_char CHR ''i'' # s @ of_char CHR ''e'' # rest)
              = Some (Inr (BNumber (parseInt s), length s + 2))"
    by (rule impI)
  show "(\<exists>err. decodeInteger d pos = Inl err) \<longleftrightarrow> of_char CHR ''e'' \<notin> set (drop (pos + 1) d)"
  proof
    assume "\<exists>err. decodeInteger d pos = Inl err"
    then obtain err where "scan_integer d (pos + 1) = Inl err"
      by (auto simp: decodeInteger_def Let_def split: sum.splits)
    then show "of_char CHR ''e'' \<notin> set (drop (pos + 1) d)"
      by (auto dest: scan_integer_error)
  next
    assume "of_char CHR ''e'' \<notin> set (drop (pos + 1) d)"
    then have "scan_integer d (pos + 1) = Inl UnterminatedInteger"
      by (rule scan_integer_missing)
    then show "\<exists>err. decodeInteger d pos = Inl err"
      by (simp add: decodeInteger_def)
  qed
  show "\<forall>err. decodeInteger d pos = Inl err \<longrightarrow> err = UnterminatedInteger"
  proof (intro allI impI)
    fix err
    assume a: "decodeInteger d pos = Inl err"
    then have "scan_integer d (pos + 1) = Inl err"
      by (auto simp: decodeInteger_def Let_def split: sum.splits)
    then show "err = UnterminatedInteger"
      by (auto dest: scan_integer_error)
  qed
  show "decode (js ''iXe'') = Some (Inr (BNumber NaN, 3))"
    by (simp add: codec_eval)
  show "decode (js ''i007e'') = Some (Inr (BNumber (Num 7), 5))"
    by (simp add: codec_eval)
qed

text \<open>
  C10 at the text \<^verbatim>\<open>12ab\<close>, which parses as 12.
\<close>

theorem C10_integer_digits_not_validated_witness:
  "of_char CHR ''e'' \<notin> set (js ''12ab'')
   \<and> exactly_parsed (js ''12ab'')
   \<and> decode (of_char CHR ''i'' # js ''12ab'' @ of_char CHR ''e'' # js ''i2e'')
       = Some (Inr (BNumber (parseInt (js ''12ab'')), length (js ''12ab'') + 2))
   \<and> parseInt (js ''12ab'') = Num 12"
proof -
  have h: "of_char CHR ''e'' \<notin> set (js ''12ab'')" by (simp add: js_def)
  have p: "parseInt (js ''12ab'') = Num 12" by (simp add: codec_eval)
  have x: "exactly_parsed (js ''12ab'')" unfolding exactly_parsed_def p by simp
  note r = C10_integer_digits_not_validated [OF h, of "js ''i2e''", THEN conjunct2, THEN conjunct1]
  have v: "decode (of_char CHR ''i'' # js ''12ab'' @ of_char CHR ''e'' # js ''i2e'')
       = Some (Inr (BNumber (parseInt (js ''12ab'')), length (js ''12ab'') + 2))"
    by (rule mp [OF r x])
  from h x v p show ?thesis by (intro conjI)
qed

end
